theory Spec2Isabelle
  imports Main
begin

section \<open>Candidate sets (class Possible)\<close>

text \<open>
  A \<open>Possible\<close> holds one \<open>vector<bool>\<close> of nine flags; flag \<open>i - 1\<close> says
  whether digit \<open>i\<close> is still a candidate. Digits are C++ \<open>int\<close>s, so they are
  integers here. The vector is indexed without a range check: the model reads and writes
  position \<open>nat (i - 1)\<close> and every statement about it carries \<open>1 \<le> i\<close> and \<open>i \<le> 9\<close>.
\<close>

type_synonym Possible = "bool list"

definition Possible :: Possible where
  "Possible = replicate 9 True"

definition is_on :: "Possible \<Rightarrow> int \<Rightarrow> bool" where
  "is_on b i = b ! nat (i - 1)"

definition count :: "Possible \<Rightarrow> nat" where
  "count b = length (filter (\<lambda>x. x) b)"

definition eliminate_bit :: "Possible \<Rightarrow> int \<Rightarrow> Possible" where
  "eliminate_bit b i = b[nat (i - 1) := False]"

text \<open>\<open>std::find\<close> of the first \<open>true\<close>: the number of leading \<open>false\<close> flags.\<close>

definition val :: "Possible \<Rightarrow> int" where
  "val b = (let it = length (takeWhile (\<lambda>x. \<not> x) b)
            in if it \<noteq> length b then 1 + int it else - 1)"

section \<open>The constraint tables (static members of class Sudoku)\<close>

text \<open>
  \<open>_group\<close>, \<open>_neighbors\<close> and \<open>_groups_of\<close> are static vectors of vectors,
  constructed with 27, 81 and 81 empty rows. Only \<open>Sudoku::init\<close> fills them, by
  \<open>push_back\<close>. Every operation of a board reads them, so they are a parameter of
  the model.
\<close>

record topology =
  group :: "nat list list"
  neighbors :: "nat list list"
  groups_of :: "nat list list"

definition static_topology :: topology where
  "static_topology =
     \<lparr>group = replicate 27 [], neighbors = replicate 81 [], groups_of = replicate 81 []\<rparr>"

definition push_back :: "nat list list \<Rightarrow> nat \<Rightarrow> nat \<Rightarrow> nat list list" where
  "push_back tbl r v = tbl[r := tbl ! r @ [v]]"

definition init_cell :: "nat \<Rightarrow> nat \<Rightarrow> topology \<Rightarrow> topology" where
  "init_cell i j T =
     (let k = i * 9 + j;
          x = [i, 9 + j, 18 + (i div 3) * 3 + j div 3]
      in fold (\<lambda>g T. T\<lparr>group := push_back (group T) (x ! g) k,
                         groups_of := push_back (groups_of T) k (x ! g)\<rparr>) [0..<3] T)"

definition init_neighbor :: "nat \<Rightarrow> nat \<Rightarrow> nat \<Rightarrow> topology \<Rightarrow> topology" where
  "init_neighbor k x j T =
     (let k2 = group T ! (groups_of T ! k ! x) ! j
      in if k2 \<noteq> k then T\<lparr>neighbors := push_back (neighbors T) k k2\<rparr> else T)"

text \<open>The first loop nest of \<open>init\<close> fills \<open>_group\<close> and \<open>_groups_of\<close>.\<close>

definition init_groups :: "topology \<Rightarrow> topology" where
  "init_groups T = fold (\<lambda>i. fold (\<lambda>j. init_cell i j) [0..<9]) [0..<9] T"

text \<open>The second fills \<open>_neighbors\<close>, row by row, from the other two tables.\<close>

definition init_neighbors :: "topology \<Rightarrow> topology" where
  "init_neighbors T =
     fold (\<lambda>k T. fold (\<lambda>x. fold (\<lambda>j. init_neighbor k x j) [0..<9])
                      [0..<length (groups_of T ! k)] T)
          [0..<length (neighbors T)] T"

definition init :: "topology \<Rightarrow> topology" where
  "init T = init_neighbors (init_groups T)"

section \<open>Boards (class Sudoku) and propagation\<close>

type_synonym sudoku = "Possible list"

text \<open>
  \<open>assign\<close> and \<open>eliminate\<close> mutate \<open>_cells\<close> and return a \<open>bool\<close>; the model
  returns the flag together with the board as the call leaves it, also when the flag is
  \<open>False\<close>. The mutual recursion is bounded by a fuel that counts nested calls of
  \<open>eliminate\<close>; \<open>None\<close> means the fuel ran out.

  The three loops of the propagation have one shape,
  \<^verbatim>\<open>for (...) { if (!step) return false; }\<close> followed by \<^verbatim>\<open>return true\<close> (or by
  the rest of \<open>eliminate\<close>): \<open>for_all\<close> runs the steps in order on the board and
  stops at the first that fails.
\<close>

type_synonym propagated = "(bool \<times> sudoku) option"

type_synonym propagation = "nat \<Rightarrow> int \<Rightarrow> sudoku \<Rightarrow> propagated"

fun for_all :: "('a \<Rightarrow> sudoku \<Rightarrow> propagated) \<Rightarrow> 'a list \<Rightarrow> sudoku \<Rightarrow> propagated" where
  "for_all f [] s = Some (True, s)"
| "for_all f (x # xs) s =
     (case f x s of
        None \<Rightarrow> None
      | Some (False, s') \<Rightarrow> Some (False, s')
      | Some (True, s') \<Rightarrow> for_all f xs s')"

text \<open>\<open>assign\<close>, with the \<open>eliminate\<close> it calls as the argument \<open>E\<close>.\<close>

definition assign_with :: "propagation \<Rightarrow> propagation" where
  "assign_with E k v s =
     for_all (\<lambda>i s. if i \<noteq> v then E k i s else Some (True, s)) [1..9] s"

text \<open>
  The inner loop of \<open>eliminate\<close> over the nine members of group \<open>x\<close>: the cells
  that still admit \<open>v\<close>, in the order of the scan. The source keeps their number
  \<open>n\<close> and the last of them \<open>ks\<close>.
\<close>

definition places :: "topology \<Rightarrow> nat \<Rightarrow> int \<Rightarrow> sudoku \<Rightarrow> nat list" where
  "places T x v s = filter (\<lambda>p. is_on (s ! p) v) (map (\<lambda>j. group T ! x ! j) [0..<9])"

text \<open>One round of the loop over the groups of the cell.\<close>

definition check_group :: "propagation \<Rightarrow> topology \<Rightarrow> int \<Rightarrow> nat \<Rightarrow> sudoku \<Rightarrow> propagated" where
  "check_group E T v x s =
     (let ps = places T x v s; n = length ps
      in if n = 0 then Some (False, s)
         else if n = 1 then assign_with E (last ps) v s
         else Some (True, s))"

primrec eliminate :: "nat \<Rightarrow> topology \<Rightarrow> propagation" where
  "eliminate 0 T = (\<lambda>k v s. None)"
| "eliminate (Suc n) T = (\<lambda>k v s.
     if \<not> is_on (s ! k) v then Some (True, s)
     else
       let s1 = s[k := eliminate_bit (s ! k) v];
           N = count (s1 ! k)
       in if N = 0 then Some (False, s1)
          else
            (case (if N = 1 then for_all (\<lambda>p. eliminate n T p (val (s1 ! k))) (neighbors T ! k) s1
                   else Some (True, s1)) of
               None \<Rightarrow> None
             | Some (False, s2) \<Rightarrow> Some (False, s2)
             | Some (True, s2) \<Rightarrow> for_all (check_group (eliminate n T) T v) (groups_of T ! k) s2))"

definition assign :: "nat \<Rightarrow> topology \<Rightarrow> propagation" where
  "assign n T = assign_with (eliminate n T)"

definition is_solved :: "sudoku \<Rightarrow> bool" where
  "is_solved s = list_all (\<lambda>c. count c = 1) s"

text \<open>
  \<open>least_count\<close>: the loop state is the pair of \<open>k\<close> and \<open>min\<close>. The source
  leaves \<open>min\<close> uninitialised; it is read only after \<open>k\<close> has been set, so its
  first value (0 here) is never used.
\<close>

definition least_count_step :: "sudoku \<Rightarrow> nat \<Rightarrow> int \<times> nat \<Rightarrow> int \<times> nat" where
  "least_count_step s i = (\<lambda>(k, mn).
     let m = count (s ! i)
     in if 1 < m \<and> (k = - 1 \<or> m < mn) then (int i, m) else (k, mn))"

definition least_count :: "sudoku \<Rightarrow> int" where
  "least_count s = fst (fold (least_count_step s) [0..<length s] (- 1, 0))"

section \<open>Construction from a puzzle string\<close>

text \<open>
  Indexing \<open>_cells\<close> outside the vector is undefined behaviour in the source; where a
  caller can reach it the model returns \<open>Inl OutOfRange\<close>. The constructor always
  leaves an object behind: the result is the text written to \<open>cerr\<close> (one line
  \<open>error\<close>, or nothing) and the board.
\<close>

datatype error = OutOfRange

type_synonym constructed = "(error + string list \<times> sudoku) option"

fun scan :: "propagation \<Rightarrow> string \<Rightarrow> nat \<Rightarrow> sudoku \<Rightarrow> constructed" where
  "scan A [] k s = Some (Inr ([], s))"
| "scan A (c # cs) k s =
     (if of_char CHR ''1'' \<le> (of_char c :: nat) \<and> (of_char c :: nat) \<le> of_char CHR ''9'' then
        (if length s \<le> k then Some (Inl OutOfRange)
         else
           (case A k (int (of_char c) - int (of_char CHR ''0'')) s of
              None \<Rightarrow> None
            | Some (False, s') \<Rightarrow> Some (Inr ([''error''], s'))
            | Some (True, s') \<Rightarrow> scan A cs (k + 1) s'))
      else if c = CHR ''0'' \<or> c = CHR ''.'' then scan A cs (k + 1) s
      else scan A cs k s)"

definition Sudoku :: "nat \<Rightarrow> topology \<Rightarrow> string \<Rightarrow> constructed" where
  "Sudoku n T str = scan (assign n T) str 0 (replicate 81 Possible)"

section \<open>Search\<close>

text \<open>
  \<open>solve\<close> takes and returns a \<open>unique_ptr\<close>, \<open>None\<close> for \<open>nullptr\<close>. The
  copy \<open>new Sudoku(*S)\<close> is the value \<open>s\<close> itself: every branch starts from the
  board of the caller. \<open>try_digits\<close> is the loop over \<open>i\<close>; \<open>R\<close> is the
  recursive call. The fuel bounds the depth of the search and of each propagation.
\<close>

type_synonym solved = "(error + sudoku option) option"

fun try_digits :: "(sudoku option \<Rightarrow> solved) \<Rightarrow> propagation \<Rightarrow> nat \<Rightarrow> Possible \<Rightarrow> int list \<Rightarrow> sudoku \<Rightarrow> solved" where
  "try_digits R A k p [] s = Some (Inr None)"
| "try_digits R A k p (i # is) s =
     (if is_on p i then
        (case A k i s of
           None \<Rightarrow> None
         | Some (False, s1) \<Rightarrow> try_digits R A k p is s
         | Some (True, s1) \<Rightarrow>
            (case R (Some s1) of
               None \<Rightarrow> None
             | Some (Inl e) \<Rightarrow> Some (Inl e)
             | Some (Inr (Some s2)) \<Rightarrow> Some (Inr (Some s2))
             | Some (Inr None) \<Rightarrow> try_digits R A k p is s))
      else try_digits R A k p is s)"

primrec solve :: "nat \<Rightarrow> topology \<Rightarrow> sudoku option \<Rightarrow> solved" where
  "solve 0 T = (\<lambda>S. None)"
| "solve (Suc n) T = (\<lambda>S.
     case S of
       None \<Rightarrow> Some (Inr None)
     | Some s \<Rightarrow>
         if is_solved s then Some (Inr (Some s))
         else
           let k = least_count s
           in if k < 0 \<or> int (length s) \<le> k then Some (Inl OutOfRange)
              else try_digits (solve n T) (assign n T) (nat k) (s ! nat k) [1..9] s)"

text \<open>
  What \<open>main\<close> computes for one line of the puzzle file:
  \<^verbatim>\<open>solve(unique_ptr<Sudoku>(new Sudoku(line)))\<close>. \<open>main\<close> does not call
  \<open>Sudoku::init\<close>, and nothing else does: the tables are the ones the static
  members were constructed with.
\<close>

definition solve_line :: "nat \<Rightarrow> string \<Rightarrow> solved" where
  "solve_line n line =
     (case Sudoku n static_topology line of
        None \<Rightarrow> None
      | Some (Inl e) \<Rightarrow> Some (Inl e)
      | Some (Inr (log, s)) \<Rightarrow> solve n static_topology (Some s))"

section \<open>Well-formed boards and tables\<close>

text \<open>
  Every \<open>Sudoku\<close> object has 81 cells of 9 flags: the constructor builds them so and
  nothing changes a length.
\<close>

definition wf_sudoku :: "sudoku \<Rightarrow> bool" where
  "wf_sudoku s \<longleftrightarrow> length s = 81 \<and> list_all (\<lambda>c. length c = 9) s"

text \<open>
  What the propagation needs of the tables to stay inside its vectors: 27, 81 and 81
  rows, every recorded cell below 81, every recorded group below 27 and with at least
  the nine members the loops read.
\<close>

definition wf_topology :: "topology \<Rightarrow> bool" where
  "wf_topology T \<longleftrightarrow>
     length (group T) = 27 \<and> length (neighbors T) = 81 \<and> length (groups_of T) = 81 \<and>
     list_all (list_all (\<lambda>p. p < 81)) (neighbors T) \<and>
     list_all (list_all (\<lambda>x. x < 27 \<and> 9 \<le> length (group T ! x) \<and>
                               list_all (\<lambda>p. p < 81) (group T ! x))) (groups_of T)"

text \<open>The sum of the candidate counts over the board.\<close>

definition total_count :: "sudoku \<Rightarrow> nat" where
  "total_count s = sum_list (map count s)"

text \<open>
  \<open>shrinks s s'\<close>: \<open>s'\<close> has the shape of \<open>s\<close> and every flag set in \<open>s'\<close> is
  set in \<open>s\<close>.
\<close>

definition shrinks :: "sudoku \<Rightarrow> sudoku \<Rightarrow> bool" where
  "shrinks s s' \<longleftrightarrow>
     length s' = length s \<and>
     (\<forall>c < length s. length (s' ! c) = length (s ! c) \<and>
        (\<forall>i < length (s ! c). s' ! c ! i \<longrightarrow> s ! c ! i))"

text \<open>
  A cell with a single candidate is \<open>pruned\<close> when that digit is off at every cell of
  its row of \<open>_neighbors\<close>.
\<close>

definition pruned :: "topology \<Rightarrow> sudoku \<Rightarrow> nat \<Rightarrow> bool" where
  "pruned T s c \<longleftrightarrow>
     (count (s ! c) = 1 \<longrightarrow> (\<forall>p \<in> set (neighbors T ! c). \<not> is_on (s ! p) (val (s ! c))))"

text \<open>
  What a propagation that returns \<open>true\<close> does to the board: it removes candidates,
  empties no cell, and leaves every pruned cell pruned.
\<close>

definition propagates :: "topology \<Rightarrow> sudoku \<Rightarrow> sudoku \<Rightarrow> bool" where
  "propagates T s s' \<longleftrightarrow>
     shrinks s s' \<and>
     (\<forall>c < length s. (0 < count (s ! c) \<longrightarrow> 0 < count (s' ! c)) \<and>
        (pruned T s c \<longrightarrow> pruned T s' c))"

text \<open>
  The state of the scan of \<open>least_count\<close> after the first \<open>m\<close> cells: either no
  cell so far has more than one candidate and \<open>k\<close> is still \<open>-1\<close>, or \<open>k\<close> is the
  first of the cells so far whose count is the least above 1, and \<open>mn\<close> is that count.
\<close>

definition least_so_far :: "sudoku \<Rightarrow> nat \<Rightarrow> int \<times> nat \<Rightarrow> bool" where
  "least_so_far s m = (\<lambda>(k, mn).
     (k = - 1 \<and> (\<forall>i < m. count (s ! i) \<le> 1)) \<or>
     (0 \<le> k \<and> nat k < m \<and> mn = count (s ! nat k) \<and> 1 < mn \<and>
        (\<forall>j < m. 1 < count (s ! j) \<longrightarrow>
           mn \<le> count (s ! j) \<and> (count (s ! j) = mn \<longrightarrow> nat k \<le> j))))"

text \<open>
  The ways a call \<open>eliminate(k, v)\<close> with fuel \<open>Suc n\<close> fails after the cell kept a
  candidate. \<open>peer_fails\<close>: the cell is down to the digit \<open>w\<close>, the eliminations of
  \<open>w\<close> at the neighbours before \<open>p\<close> succeed and the one at \<open>p\<close> fails, leaving
  \<open>s'\<close>. \<open>group_fails\<close>: the groups before \<open>x\<close> pass and, on the board \<open>t\<close> they
  leave, either no member of \<open>x\<close> admits \<open>v\<close>, or exactly one does and assigning
  \<open>v\<close> to it fails.
\<close>

definition peer_fails :: "nat \<Rightarrow> topology \<Rightarrow> nat \<Rightarrow> int \<Rightarrow> sudoku \<Rightarrow> sudoku \<Rightarrow> bool" where
  "peer_fails n T k w s1 s' \<longleftrightarrow>
     (\<exists>pre p post t. neighbors T ! k = pre @ p # post \<and>
        for_all (\<lambda>p. eliminate n T p w) pre s1 = Some (True, t) \<and>
        eliminate n T p w t = Some (False, s'))"

definition group_fails :: "nat \<Rightarrow> topology \<Rightarrow> nat \<Rightarrow> int \<Rightarrow> sudoku \<Rightarrow> sudoku \<Rightarrow> bool" where
  "group_fails n T k v s2 s' \<longleftrightarrow>
     (\<exists>pre x post t. groups_of T ! k = pre @ x # post \<and>
        for_all (check_group (eliminate n T) T v) pre s2 = Some (True, t) \<and>
        (places T x v t = [] \<and> s' = t \<or>
         (\<exists>ks. places T x v t = [ks] \<and> assign n T ks v t = Some (False, s'))))"

text \<open>The candidate set that holds the digit \<open>v\<close> alone.\<close>

definition single :: "int \<Rightarrow> Possible" where
  "single v = (replicate 9 False)[nat (v - 1) := True]"

section \<open>The puzzle encoding, as the specification words it\<close>

text \<open>
  The specification reads a puzzle string as a sequence of cells: a character in
  \<open>'1'..'9'\<close> is a given, \<open>'0'\<close> or \<open>'.'\<close> is a blank, and any other character is
  no cell at all. The cell index of a position is the number of cell characters before
  it. \<open>givens\<close> lists the givens of a string with their cell indices, in order;
  \<open>assign_givens\<close> assigns them one after the other and stops at the first failure,
  with the line \<open>error\<close> written.
\<close>

definition given_char :: "char \<Rightarrow> bool" where
  "given_char c \<longleftrightarrow> (of_char CHR ''1'' :: nat) \<le> of_char c \<and> (of_char c :: nat) \<le> of_char CHR ''9''"

definition blank_char :: "char \<Rightarrow> bool" where
  "blank_char c \<longleftrightarrow> c = CHR ''0'' \<or> c = CHR ''.''"

definition digit_of :: "char \<Rightarrow> int" where
  "digit_of c = int (of_char c) - int (of_char CHR ''0'')"

definition cell_index :: "string \<Rightarrow> nat \<Rightarrow> nat" where
  "cell_index str i = length (filter (\<lambda>c. given_char c \<or> blank_char c) (take i str))"

definition givens :: "string \<Rightarrow> (nat \<times> int) list" where
  "givens str =
     map (\<lambda>i. (cell_index str i, digit_of (str ! i)))
       (filter (\<lambda>i. given_char (str ! i)) [0..<length str])"

fun assign_givens :: "propagation \<Rightarrow> (nat \<times> int) list \<Rightarrow> sudoku \<Rightarrow> constructed" where
  "assign_givens A [] s = Some (Inr ([], s))"
| "assign_givens A ((k, d) # gs) s =
     (if length s \<le> k then Some (Inl OutOfRange)
      else
        (case A k d s of
           None \<Rightarrow> None
         | Some (False, s') \<Rightarrow> Some (Inr ([''error''], s'))
         | Some (True, s') \<Rightarrow> assign_givens A gs s'))"

section \<open>Valid grids\<close>

text \<open>
  The 27 groups are the rows of \<open>_group\<close> as \<open>init\<close> builds them: 9 rows, 9 columns
  and 9 boxes of the grid. A board holds each digit once in each group when, for every
  group and every digit 1 to 9, exactly one cell of the group admits the digit.
\<close>

definition each_digit_once :: "sudoku \<Rightarrow> bool" where
  "each_digit_once s \<longleftrightarrow>
     (\<forall>x < 27. \<forall>d \<in> {1..9}.
        \<exists>!p. p \<in> set (group (init static_topology) ! x) \<and> is_on (s ! p) d)"

section \<open>Peers and branches, as the specification words them\<close>

text \<open>
  The peers of a cell are the other cells of its row, of its column and of its box; with
  the cells numbered row by row, cell \<open>k\<close> is in row \<open>k div 9\<close>, column \<open>k mod 9\<close>
  and box \<open>(row div 3) * 3 + col div 3\<close>.
\<close>

definition peer :: "nat \<Rightarrow> nat \<Rightarrow> bool" where
  "peer k p \<longleftrightarrow>
     p \<noteq> k \<and>
     (p div 9 = k div 9 \<or> p mod 9 = k mod 9 \<or>
      (p div 9 div 3) * 3 + p mod 9 div 3 = (k div 9 div 3) * 3 + k mod 9 div 3)"

text \<open>
  The two outcomes of a branch of the search, where \<open>solve\<close> with fuel \<open>Suc n\<close> tries
  the digit \<open>i\<close> at the cell \<open>k\<close> of the board \<open>s\<close>. The branch leads to \<open>s'\<close>
  when \<open>assign\<close> succeeds on the copy and the recursive call returns the board
  \<open>s'\<close>; it is rejected when \<open>assign\<close> fails or the recursive call returns none.
\<close>

definition leads_to :: "nat \<Rightarrow> topology \<Rightarrow> nat \<Rightarrow> int \<Rightarrow> sudoku \<Rightarrow> sudoku \<Rightarrow> bool" where
  "leads_to n T k i s s' =
     (case assign n T k i s of
        Some (True, t) \<Rightarrow> solve n T (Some t) = Some (Inr (Some s'))
      | _ \<Rightarrow> False)"

definition rejected :: "nat \<Rightarrow> topology \<Rightarrow> nat \<Rightarrow> int \<Rightarrow> sudoku \<Rightarrow> bool" where
  "rejected n T k i s =
     (case assign n T k i s of
        Some (False, t) \<Rightarrow> True
      | Some (True, t) \<Rightarrow> solve n T (Some t) = Some (Inr None)
      | None \<Rightarrow> False)"

lemma shrinks_refl: "shrinks s s"
  by (simp add: shrinks_def)

lemma shrinks_trans: "shrinks a b \<Longrightarrow> shrinks b c \<Longrightarrow> shrinks a c"
  by (auto simp: shrinks_def)

lemma shrinks_eliminate_bit: "shrinks s (s[k := eliminate_bit (s ! k) v])"
proof -
  have "s[k := (s ! k)[nat (v - 1) := False]] ! c ! i \<Longrightarrow> s ! c ! i"
    if "c < length s" "i < length (s ! c)" for c i
    using that by (cases "c = k"; cases "i = nat (v - 1)") (auto simp: nth_list_update)
  moreover have "length (s[k := (s ! k)[nat (v - 1) := False]] ! c) = length (s ! c)"
    if "c < length s" for c
    using that by (cases "c = k") (auto simp: nth_list_update)
  ultimately show ?thesis
    by (simp add: shrinks_def eliminate_bit_def)
qed

subsection \<open>Rules for the loops\<close>

lemma for_all_Cons_Some:
  "for_all f (x # xs) s = Some (b, s') \<longleftrightarrow>
     (f x s = Some (False, s') \<and> \<not> b) \<or> (\<exists>t. f x s = Some (True, t) \<and> for_all f xs t = Some (b, s'))"
  by (auto split: option.splits bool.splits)

text \<open>A preorder that every step respects relates the board before and after the loop.\<close>

lemma for_all_any:
  assumes run: "for_all f xs s = Some (b, s')"
    and step: "\<And>x t c t'. x \<in> set xs \<Longrightarrow> R s t \<Longrightarrow> f x t = Some (c, t') \<Longrightarrow> R t t'"
    and R_refl: "\<And>t. R t t" and R_trans: "\<And>a b c. R a b \<Longrightarrow> R b c \<Longrightarrow> R a c"
  shows "R s s'"
  using run step
proof (induction xs arbitrary: s)
  case Nil
  then show ?case by (simp add: R_refl)
next
  case (Cons x xs)
  from Cons.prems(1) consider "f x s = Some (False, s')"
    | t where "f x s = Some (True, t)" "for_all f xs t = Some (b, s')"
    by (auto split: option.splits bool.splits)
  then show ?case
  proof cases
    case 1
    then show ?thesis using Cons.prems(2)[of x s False s'] R_refl by simp
  next
    case 2
    have st: "R s t" using Cons.prems(2)[of x s True t] R_refl 2 by simp
    have "R t s'"
    proof (rule Cons.IH[OF 2(2)])
      fix y u d u' assume "y \<in> set xs" "R t u" "f y u = Some (d, u')"
      then show "R u u'" using Cons.prems(2)[of y u d u'] R_trans[OF st] by simp
    qed
    then show ?thesis by (rule R_trans[OF st])
  qed
qed

text \<open>The same for a loop that ran to its end, from the steps that succeeded.\<close>

lemma for_all_ok:
  assumes run: "for_all f xs s = Some (True, s')"
    and step: "\<And>x t t'. x \<in> set xs \<Longrightarrow> R s t \<Longrightarrow> f x t = Some (True, t') \<Longrightarrow> R t t'"
    and R_refl: "\<And>t. R t t" and R_trans: "\<And>a b c. R a b \<Longrightarrow> R b c \<Longrightarrow> R a c"
  shows "R s s'"
  using run step
proof (induction xs arbitrary: s)
  case Nil
  then show ?case by (simp add: R_refl)
next
  case (Cons x xs)
  from Cons.prems(1) obtain t where 2: "f x s = Some (True, t)" "for_all f xs t = Some (True, s')"
    by (auto split: option.splits bool.splits)
  have st: "R s t" using Cons.prems(2)[of x s t] R_refl 2 by simp
  have "R t s'"
  proof (rule Cons.IH[OF 2(2)])
    fix y u u' assume "y \<in> set xs" "R t u" "f y u = Some (True, u')"
    then show "R u u'" using Cons.prems(2)[of y u u'] R_trans[OF st] by simp
  qed
  then show ?case by (rule R_trans[OF st])
qed

text \<open>A loop whose steps all return, returns.\<close>

lemma for_all_returns:
  assumes step: "\<And>x t. x \<in> set xs \<Longrightarrow> R s t \<Longrightarrow> \<exists>c t'. f x t = Some (c, t') \<and> R t t'"
    and R_refl: "\<And>t. R t t" and R_trans: "\<And>a b c. R a b \<Longrightarrow> R b c \<Longrightarrow> R a c"
  shows "\<exists>b s'. for_all f xs s = Some (b, s') \<and> R s s'"
  using step
proof (induction xs arbitrary: s)
  case Nil
  have "for_all f [] s = Some (True, s)" by simp
  then show ?case using R_refl by blast
next
  case (Cons x xs)
  from Cons.prems(1)[of x s] R_refl obtain c t where 1: "f x s = Some (c, t)" "R s t"
    by auto
  show ?case
  proof (cases c)
    case False
    with 1 have "for_all f (x # xs) s = Some (False, t)" by simp
    with 1 show ?thesis by blast
  next
    case True
    have "\<exists>b s'. for_all f xs t = Some (b, s') \<and> R t s'"
    proof (rule Cons.IH)
      fix y u assume "y \<in> set xs" "R t u"
      then show "\<exists>c t'. f y u = Some (c, t') \<and> R u t'"
        using Cons.prems(1)[of y u] R_trans[OF 1(2)] by simp
    qed
    then obtain b s' where r: "for_all f xs t = Some (b, s')" "R t s'" by auto
    with 1 True have "for_all f (x # xs) s = Some (b, s')" by simp
    moreover have "R s s'" using R_trans[OF 1(2) r(2)] .
    ultimately show ?thesis by blast
  qed
qed

text \<open>
  After a loop that ran to its end, what each step established still holds, when the
  later steps keep it.
\<close>

lemma for_all_keeps:
  assumes "for_all f ys u = Some (True, u')" and "P u"
    and "\<And>y t t'. y \<in> set ys \<Longrightarrow> P t \<Longrightarrow> f y t = Some (True, t') \<Longrightarrow> P t'"
  shows "P u'"
  using assms
proof (induction ys arbitrary: u)
  case Nil
  then show ?case by simp
next
  case (Cons y ys)
  from Cons.prems(1) obtain w where w: "f y u = Some (True, w)" "for_all f ys w = Some (True, u')"
    by (auto split: option.splits bool.splits)
  have "P w" using Cons.prems(3)[of y u w] Cons.prems(2) w(1) by simp
  show ?case
  proof (rule Cons.IH[OF w(2) \<open>P w\<close>])
    fix z t t' assume "z \<in> set ys" "P t" "f z t = Some (True, t')"
    then show "P t'" using Cons.prems(3)[of z t t'] by simp
  qed
qed

lemma for_all_each:
  assumes run: "for_all f xs s = Some (True, s')"
    and step: "\<And>x t t'. x \<in> set xs \<Longrightarrow> f x t = Some (True, t') \<Longrightarrow> Q x t'"
    and keep: "\<And>x y t t'. x \<in> set xs \<Longrightarrow> y \<in> set xs \<Longrightarrow> Q x t \<Longrightarrow> f y t = Some (True, t') \<Longrightarrow> Q x t'"
  shows "\<forall>x \<in> set xs. Q x s'"
  using run step keep
proof (induction xs arbitrary: s)
  case Nil
  then show ?case by simp
next
  case (Cons x xs)
  from Cons.prems(1) obtain t where 2: "f x s = Some (True, t)" "for_all f xs t = Some (True, s')"
    by (auto split: option.splits bool.splits)
  have "Q x t" using Cons.prems(2)[of x s t] 2 by simp
  then have "Q x s'"
  proof (rule for_all_keeps[OF 2(2)])
    fix y t t' assume "y \<in> set xs" "Q x t" "f y t = Some (True, t')"
    then show "Q x t'" using Cons.prems(3)[of x y t t'] by simp
  qed
  moreover have "\<forall>y \<in> set xs. Q y s'"
  proof (rule Cons.IH[OF 2(2)])
    fix y t t' assume "y \<in> set xs" "f y t = Some (True, t')"
    then show "Q y t'" using Cons.prems(2)[of y t t'] by simp
  next
    fix y z t t' assume "y \<in> set xs" "z \<in> set xs" "Q y t" "f z t = Some (True, t')"
    then show "Q y t'" using Cons.prems(3)[of y z t t'] by simp
  qed
  ultimately show ?case by simp
qed

subsection \<open>Candidate sets\<close>

lemma count_le_length: "count b \<le> length b"
  by (simp add: count_def)

lemma count_pos_iff: "0 < count b \<longleftrightarrow> (\<exists>i < length b. b ! i)"
proof -
  have "0 < count b \<longleftrightarrow> (\<exists>x \<in> set b. x)"
    by (simp add: count_def filter_empty_conv)
  also have "\<dots> \<longleftrightarrow> (\<exists>i < length b. b ! i)"
    unfolding set_conv_nth by blast
  finally show ?thesis .
qed

lemma count_update_False:
  "j < length b \<Longrightarrow> b ! j \<Longrightarrow> Suc (count (b[j := False])) = count b"
proof (induction b arbitrary: j)
  case Nil
  then show ?case by simp
next
  case (Cons a b)
  then show ?case by (cases j) (auto simp: count_def)
qed

lemma count_eliminate_bit:
  "nat (v - 1) < length b \<Longrightarrow> is_on b v \<Longrightarrow> Suc (count (eliminate_bit b v)) = count b"
  by (simp add: is_on_def eliminate_bit_def count_update_False)

lemma is_on_eliminate_bit: "nat (v - 1) < length b \<Longrightarrow> \<not> is_on (eliminate_bit b v) v"
  by (simp add: is_on_def eliminate_bit_def)

lemma length_eliminate_bit: "length (eliminate_bit b v) = length b"
  by (simp add: eliminate_bit_def)

lemma first_true_le: "i < length b \<Longrightarrow> b ! i \<Longrightarrow> length (takeWhile (\<lambda>x. \<not> x) b) \<le> i"
proof (induction b arbitrary: i)
  case Nil
  then show ?case by simp
next
  case (Cons a b)
  then show ?case by (cases i) auto
qed

lemma val_first:
  assumes "0 < count b"
  shows "1 \<le> val b" and "val b \<le> int (length b)" and "is_on b (val b)"
proof -
  from assms obtain i where i: "i < length b" "b ! i" by (auto simp: count_pos_iff)
  let ?n = "length (takeWhile (\<lambda>x. \<not> x) b)"
  have lt: "?n < length b"
    using i first_true_le[of i b] by simp
  then have "b ! ?n" using nth_length_takeWhile[of "\<lambda>x. \<not> x" b] by simp
  with lt show "1 \<le> val b" "val b \<le> int (length b)" "is_on b (val b)"
    by (simp_all add: val_def is_on_def Let_def)
qed

text \<open>Two flag vectors of one length, the second below the first, with equal counts are equal.\<close>

lemma count_mono:
  "length b' = length b \<Longrightarrow> (\<forall>i < length b. b' ! i \<longrightarrow> b ! i) \<Longrightarrow> count b' \<le> count b"
proof (induction b' b rule: list_induct2)
  case Nil
  then show ?case by simp
next
  case (Cons x xs y ys)
  have "\<forall>i < length ys. xs ! i \<longrightarrow> ys ! i" using Cons.prems by auto
  with Cons.IH have "count xs \<le> count ys" by simp
  moreover have "x \<longrightarrow> y" using Cons.prems by auto
  ultimately show ?case by (auto simp: count_def)
qed

lemma count_eq_same:
  "length b' = length b \<Longrightarrow> (\<forall>i < length b. b' ! i \<longrightarrow> b ! i) \<Longrightarrow> count b \<le> count b' \<Longrightarrow> b' = b"
proof (induction b' b rule: list_induct2)
  case Nil
  then show ?case by simp
next
  case (Cons x xs y ys)
  have le: "\<forall>i < length ys. xs ! i \<longrightarrow> ys ! i" using Cons.prems by auto
  then have c: "count xs \<le> count ys" using Cons.hyps count_mono by blast
  have xy: "x \<longrightarrow> y" using Cons.prems by auto
  with c Cons.prems(2) have "x = y" "count ys \<le> count xs"
    by (auto simp: count_def split: if_splits)
  with Cons.IH le show ?case by simp
qed

lemma count_one_val:
  assumes "count b = 1" "is_on b v" "1 \<le> v" "v \<le> int (length b)"
  shows "val b = v"
proof -
  have ex: "\<And>i j. i < length b \<Longrightarrow> j < length b \<Longrightarrow> b ! i \<Longrightarrow> b ! j \<Longrightarrow> i = j"
  proof (rule ccontr)
    fix i j assume a: "i < length b" "j < length b" "b ! i" "b ! j" "i \<noteq> j"
    have "Suc (count (b[i := False])) = count b" using a by (simp add: count_update_False)
    with assms(1) have "count (b[i := False]) = 0" by simp
    moreover have "b[i := False] ! j" using a by simp
    ultimately show False using a(2) count_pos_iff[of "b[i := False]"] by auto
  qed
  have "0 < count b" using assms by simp
  from val_first[OF this] have "is_on b (val b)" "1 \<le> val b" "val b \<le> int (length b)" by auto
  then have "nat (val b - 1) = nat (v - 1)"
    using ex[of "nat (val b - 1)" "nat (v - 1)"] assms by (auto simp: is_on_def)
  then show ?thesis using assms \<open>1 \<le> val b\<close> by auto
qed

subsection \<open>Shapes and sums\<close>

lemma shrinks_wf: "shrinks s s' \<Longrightarrow> wf_sudoku s \<Longrightarrow> wf_sudoku s'"
  by (auto simp: shrinks_def wf_sudoku_def list_all_length)

lemma shrinks_length: "shrinks s s' \<Longrightarrow> length s' = length s"
  by (simp add: shrinks_def)

lemma shrinks_is_on:
  "shrinks s s' \<Longrightarrow> c < length s \<Longrightarrow> nat (v - 1) < length (s ! c) \<Longrightarrow> is_on (s' ! c) v \<Longrightarrow> is_on (s ! c) v"
  by (auto simp: shrinks_def is_on_def)

lemma shrinks_count: "shrinks s s' \<Longrightarrow> c < length s \<Longrightarrow> count (s' ! c) \<le> count (s ! c)"
  by (auto simp: shrinks_def intro!: count_mono)

lemma shrinks_total: "shrinks s s' \<Longrightarrow> total_count s' \<le> total_count s"
  unfolding total_count_def
  by (rule sum_list_mono2) (auto simp: shrinks_length shrinks_count)

lemma wf_cell: "wf_sudoku s \<Longrightarrow> k < 81 \<Longrightarrow> length (s ! k) = 9"
  by (simp add: wf_sudoku_def list_all_length)

lemma total_update:
  "k < length s \<Longrightarrow> Suc (count c) = count (s ! k) \<Longrightarrow> Suc (total_count (s[k := c])) = total_count s"
proof (induction s arbitrary: k)
  case Nil
  then show ?case by simp
next
  case (Cons a s)
  show ?case
  proof (cases k)
    case 0
    with Cons.prems show ?thesis by (simp add: total_count_def)
  next
    case (Suc j)
    with Cons.prems have "Suc (total_count (s[j := c])) = total_count s" using Cons.IH[of j] by simp
    with Suc show ?thesis by (simp add: total_count_def)
  qed
qed

lemma total_eliminate_bit:
  assumes "k < length s" "nat (v - 1) < length (s ! k)" "is_on (s ! k) v"
  shows "Suc (total_count (s[k := eliminate_bit (s ! k) v])) = total_count s"
  using assms(1) count_eliminate_bit[OF assms(2,3)] by (rule total_update)

subsection \<open>One call of eliminate, by cases\<close>

lemma eliminate_off: "\<not> is_on (s ! k) v \<Longrightarrow> eliminate (Suc n) T k v s = Some (True, s)"
  by simp

lemma eliminate_dead:
  "is_on (s ! k) v \<Longrightarrow> count (s[k := eliminate_bit (s ! k) v] ! k) = 0 \<Longrightarrow>
   eliminate (Suc n) T k v s = Some (False, s[k := eliminate_bit (s ! k) v])"
  by (simp add: Let_def)

lemma eliminate_single:
  "is_on (s ! k) v \<Longrightarrow> count (s[k := eliminate_bit (s ! k) v] ! k) = 1 \<Longrightarrow>
   eliminate (Suc n) T k v s =
     (case for_all (\<lambda>p. eliminate n T p (val (s[k := eliminate_bit (s ! k) v] ! k)))
             (neighbors T ! k) (s[k := eliminate_bit (s ! k) v]) of
        None \<Rightarrow> None
      | Some (False, s2) \<Rightarrow> Some (False, s2)
      | Some (True, s2) \<Rightarrow> for_all (check_group (eliminate n T) T v) (groups_of T ! k) s2)"
  by (simp add: Let_def)

lemma eliminate_several:
  "is_on (s ! k) v \<Longrightarrow> 1 < count (s[k := eliminate_bit (s ! k) v] ! k) \<Longrightarrow>
   eliminate (Suc n) T k v s =
     for_all (check_group (eliminate n T) T v) (groups_of T ! k) (s[k := eliminate_bit (s ! k) v])"
  by (simp add: Let_def)

declare eliminate.simps(2) [simp del]

lemma eliminate_Suc_cases:
  assumes "eliminate (Suc n) T k v s = Some (b, s')"
  obtains
    (off) "\<not> is_on (s ! k) v" "b" "s' = s"
  | (dead) "is_on (s ! k) v" "count (s[k := eliminate_bit (s ! k) v] ! k) = 0" "\<not> b"
      "s' = s[k := eliminate_bit (s ! k) v]"
  | (peer) "is_on (s ! k) v" "count (s[k := eliminate_bit (s ! k) v] ! k) = 1" "\<not> b"
      "for_all (\<lambda>p. eliminate n T p (val (s[k := eliminate_bit (s ! k) v] ! k))) (neighbors T ! k)
         (s[k := eliminate_bit (s ! k) v]) = Some (False, s')"
  | (single) s2 where "is_on (s ! k) v" "count (s[k := eliminate_bit (s ! k) v] ! k) = 1"
      "for_all (\<lambda>p. eliminate n T p (val (s[k := eliminate_bit (s ! k) v] ! k))) (neighbors T ! k)
         (s[k := eliminate_bit (s ! k) v]) = Some (True, s2)"
      "for_all (check_group (eliminate n T) T v) (groups_of T ! k) s2 = Some (b, s')"
  | (several) "is_on (s ! k) v" "1 < count (s[k := eliminate_bit (s ! k) v] ! k)"
      "for_all (check_group (eliminate n T) T v) (groups_of T ! k)
         (s[k := eliminate_bit (s ! k) v]) = Some (b, s')"
proof (cases "is_on (s ! k) v")
  case False
  then have "b \<and> s' = s" using assms eliminate_off[OF False, of n T] by simp
  with False show ?thesis using off by blast
next
  case on: True
  let ?s1 = "s[k := eliminate_bit (s ! k) v]"
  consider "count (?s1 ! k) = 0" | "count (?s1 ! k) = 1" | "1 < count (?s1 ! k)"
    by linarith
  then show ?thesis
  proof cases
    case 1
    then have "\<not> b \<and> s' = ?s1" using assms eliminate_dead[OF on 1, of n T] by simp
    with on 1 show ?thesis using dead by blast
  next
    case 2
    let ?r = "for_all (\<lambda>p. eliminate n T p (val (?s1 ! k))) (neighbors T ! k) ?s1"
    have e: "(case ?r of None \<Rightarrow> None | Some (False, s2) \<Rightarrow> Some (False, s2)
              | Some (True, s2) \<Rightarrow> for_all (check_group (eliminate n T) T v) (groups_of T ! k) s2)
             = Some (b, s')"
      using assms eliminate_single[OF on 2, of n T] by simp
    show ?thesis
    proof (cases ?r)
      case None
      with e show ?thesis by simp
    next
      case (Some r)
      obtain c s2 where r: "r = (c, s2)" by (cases r)
      show ?thesis
      proof (cases c)
        case True
        with e Some r have g: "for_all (check_group (eliminate n T) T v) (groups_of T ! k) s2 = Some (b, s')"
          by simp
        have "?r = Some (True, s2)" using Some r True by simp
        then show ?thesis using g by (rule single[OF on 2])
      next
        case False
        with e Some r have nb: "\<not> b" and "s2 = s'" by simp_all
        then have "?r = Some (False, s')" using Some r False by simp
        with nb show ?thesis by (rule peer[OF on 2])
      qed
    qed
  next
    case 3
    then have "for_all (check_group (eliminate n T) T v) (groups_of T ! k) ?s1 = Some (b, s')"
      using assms eliminate_several[OF on 3, of n T] by simp
    with on 3 show ?thesis using several by blast
  qed
qed

subsection \<open>Rules for assign and for one group\<close>

lemma assign_with_any:
  assumes "assign_with E k v s = Some (b, s')"
    and "\<And>i t c t'. 1 \<le> i \<Longrightarrow> i \<le> 9 \<Longrightarrow> i \<noteq> v \<Longrightarrow> R s t \<Longrightarrow> E k i t = Some (c, t') \<Longrightarrow> R t t'"
    and "\<And>t. R t t" and "\<And>a b c. R a b \<Longrightarrow> R b c \<Longrightarrow> R a c"
  shows "R s s'"
proof (rule for_all_any[OF assms(1)[unfolded assign_with_def]])
  fix i t c t'
  assume "i \<in> set [1..9]" "R s t" "(if i \<noteq> v then E k i t else Some (True, t)) = Some (c, t')"
  then show "R t t'" using assms(2)[of i t c t'] assms(3) by (cases "i = v") auto
qed (use assms(3,4) in blast)+

lemma assign_with_ok:
  assumes "assign_with E k v s = Some (True, s')"
    and "\<And>i t t'. 1 \<le> i \<Longrightarrow> i \<le> 9 \<Longrightarrow> i \<noteq> v \<Longrightarrow> R s t \<Longrightarrow> E k i t = Some (True, t') \<Longrightarrow> R t t'"
    and "\<And>t. R t t" and "\<And>a b c. R a b \<Longrightarrow> R b c \<Longrightarrow> R a c"
  shows "R s s'"
proof (rule for_all_ok[OF assms(1)[unfolded assign_with_def]])
  fix i t t'
  assume "i \<in> set [1..9]" "R s t" "(if i \<noteq> v then E k i t else Some (True, t)) = Some (True, t')"
  then show "R t t'" using assms(2)[of i t t'] assms(3) by (cases "i = v") auto
qed (use assms(3,4) in blast)+

lemma assign_with_returns:
  assumes "\<And>i t. 1 \<le> i \<Longrightarrow> i \<le> 9 \<Longrightarrow> i \<noteq> v \<Longrightarrow> R s t \<Longrightarrow> \<exists>c t'. E k i t = Some (c, t') \<and> R t t'"
    and "\<And>t. R t t" and "\<And>a b c. R a b \<Longrightarrow> R b c \<Longrightarrow> R a c"
  shows "\<exists>b s'. assign_with E k v s = Some (b, s') \<and> R s s'"
  unfolding assign_with_def
proof (rule for_all_returns)
  fix i t
  assume "i \<in> set [1..9]" "R s t"
  then show "\<exists>c t'. (if i \<noteq> v then E k i t else Some (True, t)) = Some (c, t') \<and> R t t'"
    using assms(1)[of i t] assms(2) by (cases "i = v") auto
qed (use assms(2,3) in blast)+

lemma places_subset: "set (places T x v s) \<subseteq> (\<lambda>j. group T ! x ! j) ` {0..<9}"
  by (auto simp: places_def)

lemma last_places:
  "length (places T x v s) = 1 \<Longrightarrow> last (places T x v s) \<in> (\<lambda>j. group T ! x ! j) ` {0..<9}"
  using places_subset[of T x v s] last_in_set[of "places T x v s"] by (cases "places T x v s") auto

lemma check_group_one:
  "length (places T x v s) = 1 \<Longrightarrow>
   check_group E T v x s = assign_with E (last (places T x v s)) v s"
  by (cases "places T x v s") (simp_all add: check_group_def Let_def)

lemma check_group_other:
  "length (places T x v s) \<noteq> 1 \<Longrightarrow>
   check_group E T v x s = Some (length (places T x v s) \<noteq> 0, s)"
  by (cases "places T x v s") (simp_all add: check_group_def Let_def)

lemma check_group_any:
  assumes "check_group E T v x s = Some (b, s')"
    and "\<And>p i t c t'. p \<in> (\<lambda>j. group T ! x ! j) ` {0..<9} \<Longrightarrow> 1 \<le> i \<Longrightarrow> i \<le> 9 \<Longrightarrow> R s t
           \<Longrightarrow> E p i t = Some (c, t') \<Longrightarrow> R t t'"
    and "\<And>t. R t t" and "\<And>a b c. R a b \<Longrightarrow> R b c \<Longrightarrow> R a c"
  shows "R s s'"
proof (cases "length (places T x v s) = 1")
  case True
  with assms(1) have a: "assign_with E (last (places T x v s)) v s = Some (b, s')"
    by (simp only: check_group_one)
  show ?thesis
    by (rule assign_with_any[OF a]) (use assms(2-4) last_places[OF True] in blast)+
next
  case False
  with assms(1) have "s' = s" by (simp add: check_group_other)
  then show ?thesis by (simp add: assms(3))
qed

lemma check_group_ok:
  assumes "check_group E T v x s = Some (True, s')"
    and "\<And>p i t t'. p \<in> (\<lambda>j. group T ! x ! j) ` {0..<9} \<Longrightarrow> 1 \<le> i \<Longrightarrow> i \<le> 9 \<Longrightarrow> R s t
           \<Longrightarrow> E p i t = Some (True, t') \<Longrightarrow> R t t'"
    and "\<And>t. R t t" and "\<And>a b c. R a b \<Longrightarrow> R b c \<Longrightarrow> R a c"
  shows "R s s'"
proof (cases "length (places T x v s) = 1")
  case True
  with assms(1) have a: "assign_with E (last (places T x v s)) v s = Some (True, s')"
    by (simp only: check_group_one)
  show ?thesis
    by (rule assign_with_ok[OF a]) (use assms(2-4) last_places[OF True] in blast)+
next
  case False
  with assms(1) have "s' = s" by (simp add: check_group_other)
  then show ?thesis by (simp add: assms(3))
qed

lemma check_group_returns:
  assumes "\<And>p i t. p \<in> (\<lambda>j. group T ! x ! j) ` {0..<9} \<Longrightarrow> 1 \<le> i \<Longrightarrow> i \<le> 9 \<Longrightarrow> R s t
           \<Longrightarrow> \<exists>c t'. E p i t = Some (c, t') \<and> R t t'"
    and "\<And>t. R t t" and "\<And>a b c. R a b \<Longrightarrow> R b c \<Longrightarrow> R a c"
  shows "\<exists>b s'. check_group E T v x s = Some (b, s') \<and> R s s'"
proof (cases "length (places T x v s) = 1")
  case True
  have "\<exists>b s'. assign_with E (last (places T x v s)) v s = Some (b, s') \<and> R s s'"
    by (rule assign_with_returns) (use assms last_places[OF True] in blast)+
  with True show ?thesis by (simp only: check_group_one)
next
  case False
  then have "check_group E T v x s = Some (length (places T x v s) \<noteq> 0, s)"
    by (rule check_group_other)
  then show ?thesis using assms(2) by blast
qed

subsection \<open>Propagation only removes candidates\<close>

lemma eliminate_shrinks: "eliminate n T k v s = Some (b, s') \<Longrightarrow> shrinks s s'"
proof (induction n arbitrary: k v s b s')
  case 0
  then show ?case by simp
next
  case (Suc n)
  let ?s1 = "s[k := eliminate_bit (s ! k) v]"
  have s1: "shrinks s ?s1" by (rule shrinks_eliminate_bit)
  have groups: "shrinks t t'"
    if "for_all (check_group (eliminate n T) T v) xs t = Some (c, t')" for xs t c t'
  proof (rule for_all_any[OF that])
    fix x u d u' assume "check_group (eliminate n T) T v x u = Some (d, u')"
    then show "shrinks u u'"
      by (rule check_group_any) (use Suc.IH shrinks_refl shrinks_trans in blast)+
  qed (use shrinks_refl shrinks_trans in blast)+
  have peers: "shrinks t t'"
    if "for_all (\<lambda>p. eliminate n T p w) ps t = Some (c, t')" for ps w t c t'
    by (rule for_all_any[OF that]) (use Suc.IH shrinks_refl shrinks_trans in blast)+
  from Suc.prems show ?case
  proof (cases rule: eliminate_Suc_cases)
    case off
    then show ?thesis by (simp add: shrinks_refl)
  next
    case dead
    then show ?thesis using s1 by simp
  next
    case peer
    have "shrinks ?s1 s'" using peer(4) by (rule peers)
    with s1 show ?thesis by (rule shrinks_trans)
  next
    case (single s2)
    have "shrinks ?s1 s2" using single(3) by (rule peers)
    moreover have "shrinks s2 s'" using single(4) by (rule groups)
    ultimately have "shrinks ?s1 s'" by (rule shrinks_trans)
    with s1 show ?thesis by (rule shrinks_trans)
  next
    case several
    have "shrinks ?s1 s'" using several(3) by (rule groups)
    with s1 show ?thesis by (rule shrinks_trans)
  qed
qed

lemma assign_shrinks: "assign n T k v s = Some (b, s') \<Longrightarrow> shrinks s s'"
  unfolding assign_def
  by (erule assign_with_any) (use eliminate_shrinks shrinks_refl shrinks_trans in blast)+

text \<open>When the digit was on, everything the call does comes after its removal.\<close>

lemma eliminate_shrinks_on:
  assumes "eliminate n T k v s = Some (b, s')" "is_on (s ! k) v"
  shows "shrinks (s[k := eliminate_bit (s ! k) v]) s'"
proof -
  let ?s1 = "s[k := eliminate_bit (s ! k) v]"
  obtain m where n: "n = Suc m" using assms(1) by (cases n) auto
  have groups: "shrinks t t'"
    if "for_all (check_group (eliminate m T) T v) xs t = Some (c, t')" for xs t c t'
  proof (rule for_all_any[OF that])
    fix x u d u' assume "check_group (eliminate m T) T v x u = Some (d, u')"
    then show "shrinks u u'"
      by (rule check_group_any) (use eliminate_shrinks shrinks_refl shrinks_trans in blast)+
  qed (use shrinks_refl shrinks_trans in blast)+
  have peers: "shrinks t t'"
    if "for_all (\<lambda>p. eliminate m T p w) ps t = Some (c, t')" for ps w t c t'
    by (rule for_all_any[OF that]) (use eliminate_shrinks shrinks_refl shrinks_trans in blast)+
  show ?thesis
    using assms(1)[unfolded n]
  proof (cases rule: eliminate_Suc_cases)
    case off
    with assms(2) show ?thesis by simp
  next
    case dead
    then show ?thesis by (simp add: shrinks_refl)
  next
    case peer
    from peer(4) show ?thesis by (rule peers)
  next
    case (single s2)
    have "shrinks ?s1 s2" using single(3) by (rule peers)
    moreover have "shrinks s2 s'" using single(4) by (rule groups)
    ultimately show ?thesis by (rule shrinks_trans)
  next
    case several
    from several(3) show ?thesis by (rule groups)
  qed
qed

text \<open>After \<open>eliminate\<close>, whatever it returns, the digit is off at the cell.\<close>

lemma eliminate_off_after:
  assumes "eliminate n T k v s = Some (b, s')" "k < length s" "nat (v - 1) < length (s ! k)"
  shows "\<not> is_on (s' ! k) v"
proof (cases "is_on (s ! k) v")
  case False
  have "shrinks s s'" using assms(1) by (rule eliminate_shrinks)
  then show ?thesis using False assms(2,3) shrinks_is_on by blast
next
  case True
  let ?s1 = "s[k := eliminate_bit (s ! k) v]"
  have off: "\<not> is_on (?s1 ! k) v" using assms(2,3) by (simp add: is_on_eliminate_bit)
  have len: "k < length ?s1" "nat (v - 1) < length (?s1 ! k)"
    using assms(2,3) by (simp_all add: length_eliminate_bit)
  have "shrinks ?s1 s'" using assms(1) True by (rule eliminate_shrinks_on)
  then show ?thesis using off len shrinks_is_on by blast
qed

subsection \<open>The tables keep the propagation inside the board\<close>

lemma neighbors_lt: "wf_topology T \<Longrightarrow> k < 81 \<Longrightarrow> p \<in> set (neighbors T ! k) \<Longrightarrow> p < 81"
  by (auto simp: wf_topology_def list_all_length in_set_conv_nth)

lemma group_member_lt:
  assumes "wf_topology T" "k < 81" "x \<in> set (groups_of T ! k)" "p \<in> (\<lambda>j. group T ! x ! j) ` {0..<9}"
  shows "p < 81"
proof -
  from assms(1,2) have "list_all (\<lambda>x. x < 27 \<and> 9 \<le> length (group T ! x) \<and>
      list_all (\<lambda>p. p < 81) (group T ! x)) (groups_of T ! k)"
    by (simp add: wf_topology_def list_all_length)
  with assms(3) have x: "9 \<le> length (group T ! x)" "list_all (\<lambda>p. p < 81) (group T ! x)"
    by (auto simp: list_all_iff)
  from assms(4) obtain j where "j < 9" "p = group T ! x ! j" by auto
  with x show ?thesis by (simp add: list_all_length)
qed

subsection \<open>Termination\<close>

lemma eliminate_returns:
  assumes T: "wf_topology T"
  shows "wf_sudoku s \<Longrightarrow> k < 81 \<Longrightarrow> 1 \<le> v \<Longrightarrow> v \<le> 9 \<Longrightarrow> total_count s < n
         \<Longrightarrow> \<exists>b s'. eliminate n T k v s = Some (b, s')"
proof (induction n arbitrary: k v s)
  case 0
  then show ?case by simp
next
  case (Suc n)
  let ?s1 = "s[k := eliminate_bit (s ! k) v]"
  let ?E = "eliminate n T"
  have len: "k < length s" "nat (v - 1) < length (s ! k)"
    using Suc.prems wf_cell[of s k] by (simp_all add: wf_sudoku_def)
  have step: "\<exists>c t'. ?E p i t = Some (c, t') \<and> shrinks t t'"
    if "wf_sudoku u" "total_count u < n" "shrinks u t" "p < 81" "1 \<le> i" "i \<le> 9" for u t p i
  proof -
    have "wf_sudoku t" "total_count t < n"
      using that shrinks_wf shrinks_total[of u t] by auto
    with Suc.IH[of t p i] that obtain c t' where "?E p i t = Some (c, t')" by auto
    then show ?thesis using eliminate_shrinks by blast
  qed
  have groups: "\<exists>b s'. for_all (check_group ?E T v) (groups_of T ! k) u = Some (b, s')"
    if u: "wf_sudoku u" "total_count u < n" for u
  proof -
    have "\<exists>b s'. for_all (check_group ?E T v) (groups_of T ! k) u = Some (b, s') \<and> shrinks u s'"
    proof (rule for_all_returns)
      fix x t assume x: "x \<in> set (groups_of T ! k)" and t: "shrinks u t"
      show "\<exists>c t'. check_group ?E T v x t = Some (c, t') \<and> shrinks t t'"
      proof (rule check_group_returns)
        fix p and i :: int and w
        assume "p \<in> (\<lambda>j. group T ! x ! j) ` {0..<9}" "1 \<le> i" "i \<le> 9" "shrinks t w"
        then show "\<exists>c t'. ?E p i w = Some (c, t') \<and> shrinks w t'"
          using step[OF u shrinks_trans[OF t], of w p i] group_member_lt[OF T Suc.prems(2) x] by simp
      qed (use shrinks_refl shrinks_trans in blast)+
    qed (use shrinks_refl shrinks_trans in blast)+
    then show ?thesis by blast
  qed
  show ?case
  proof (cases "is_on (s ! k) v")
    case False
    then show ?thesis using eliminate_off by blast
  next
    case on: True
    have tot: "Suc (total_count ?s1) = total_count s" using len on by (rule total_eliminate_bit)
    have wf1: "wf_sudoku ?s1" using Suc.prems(1) shrinks_eliminate_bit shrinks_wf by blast
    have lt1: "total_count ?s1 < n" using tot Suc.prems(5) by simp
    consider "count (?s1 ! k) = 0" | "count (?s1 ! k) = 1" | "1 < count (?s1 ! k)"
      by linarith
    then show ?thesis
    proof cases
      case 1
      then show ?thesis using on eliminate_dead by blast
    next
      case 2
      let ?w = "val (?s1 ! k)"
      have w: "1 \<le> ?w" "?w \<le> 9"
        using val_first(1,2)[of "?s1 ! k"] 2 wf_cell[OF wf1 Suc.prems(2)] by simp_all
      have "\<exists>b s2. for_all (\<lambda>p. ?E p ?w) (neighbors T ! k) ?s1 = Some (b, s2) \<and> shrinks ?s1 s2"
      proof (rule for_all_returns)
        fix p t assume "p \<in> set (neighbors T ! k)" "shrinks ?s1 t"
        then show "\<exists>c t'. ?E p ?w t = Some (c, t') \<and> shrinks t t'"
          using step[OF wf1 lt1, of t p ?w] neighbors_lt[OF T Suc.prems(2)] w by simp
      qed (use shrinks_refl shrinks_trans in blast)+
      then obtain b s2 where r: "for_all (\<lambda>p. ?E p ?w) (neighbors T ! k) ?s1 = Some (b, s2)"
        and s2: "shrinks ?s1 s2" by blast
      show ?thesis
      proof (cases b)
        case False
        with r have "eliminate (Suc n) T k v s = Some (False, s2)"
          using on 2 by (simp add: eliminate_single)
        then show ?thesis by blast
      next
        case True
        have "wf_sudoku s2" "total_count s2 < n"
          using s2 wf1 lt1 shrinks_wf shrinks_total[of ?s1 s2] by auto
        from groups[OF this] r True show ?thesis using on 2 by (simp add: eliminate_single)
      qed
    next
      case 3
      from groups[OF wf1 lt1] show ?thesis using on 3 by (simp add: eliminate_several)
    qed
  qed
qed

lemma assign_returns:
  assumes "wf_topology T" "wf_sudoku s" "k < 81" "total_count s < n"
  shows "\<exists>b s'. assign n T k v s = Some (b, s')"
proof -
  have "\<exists>b s'. assign_with (eliminate n T) k v s = Some (b, s') \<and> shrinks s s'"
  proof (rule assign_with_returns)
    fix i :: int and t assume i: "1 \<le> i" "i \<le> 9" and t: "shrinks s t"
    then have "wf_sudoku t" "total_count t < n"
      using assms shrinks_wf shrinks_total[of s t] by auto
    from eliminate_returns[OF assms(1) this(1) assms(3) i this(2)]
    show "\<exists>c t'. eliminate n T k i t = Some (c, t') \<and> shrinks t t'"
      using eliminate_shrinks by blast
  qed (use shrinks_refl shrinks_trans in blast)+
  then show ?thesis by (auto simp: assign_def)
qed

subsection \<open>The tables that init builds\<close>

lemma init_groups_static:
  "init_groups static_topology =
     \<lparr>group =
        [[0, 1, 2, 3, 4, 5, 6, 7, 8], [9, 10, 11, 12, 13, 14, 15, 16, 17], [18, 19, 20,
        21, 22, 23, 24, 25, 26], [27, 28, 29, 30, 31, 32, 33, 34, 35], [36, 37, 38, 39,
        40, 41, 42, 43, 44], [45, 46, 47, 48, 49, 50, 51, 52, 53], [54, 55, 56, 57, 58,
        59, 60, 61, 62], [63, 64, 65, 66, 67, 68, 69, 70, 71], [72, 73, 74, 75, 76, 77,
        78, 79, 80], [0, 9, 18, 27, 36, 45, 54, 63, 72], [1, 10, 19, 28, 37, 46, 55, 64,
        73], [2, 11, 20, 29, 38, 47, 56, 65, 74], [3, 12, 21, 30, 39, 48, 57, 66, 75], [4,
        13, 22, 31, 40, 49, 58, 67, 76], [5, 14, 23, 32, 41, 50, 59, 68, 77], [6, 15, 24,
        33, 42, 51, 60, 69, 78], [7, 16, 25, 34, 43, 52, 61, 70, 79], [8, 17, 26, 35, 44,
        53, 62, 71, 80], [0, 1, 2, 9, 10, 11, 18, 19, 20], [3, 4, 5, 12, 13, 14, 21, 22,
        23], [6, 7, 8, 15, 16, 17, 24, 25, 26], [27, 28, 29, 36, 37, 38, 45, 46, 47], [30,
        31, 32, 39, 40, 41, 48, 49, 50], [33, 34, 35, 42, 43, 44, 51, 52, 53], [54, 55,
        56, 63, 64, 65, 72, 73, 74], [57, 58, 59, 66, 67, 68, 75, 76, 77], [60, 61, 62,
        69, 70, 71, 78, 79, 80]],
      neighbors = replicate 81 [],
      groups_of =
        [[0, 9, 18], [0, 10, 18], [0, 11, 18], [0, 12, 19], [0, 13, 19], [0, 14, 19], [0,
        15, 20], [0, 16, 20], [0, 17, 20], [1, 9, 18], [1, 10, 18], [1, 11, 18], [1, 12,
        19], [1, 13, 19], [1, 14, 19], [1, 15, 20], [1, 16, 20], [1, 17, 20], [2, 9, 18],
        [2, 10, 18], [2, 11, 18], [2, 12, 19], [2, 13, 19], [2, 14, 19], [2, 15, 20], [2,
        16, 20], [2, 17, 20], [3, 9, 21], [3, 10, 21], [3, 11, 21], [3, 12, 22], [3, 13,
        22], [3, 14, 22], [3, 15, 23], [3, 16, 23], [3, 17, 23], [4, 9, 21], [4, 10, 21],
        [4, 11, 21], [4, 12, 22], [4, 13, 22], [4, 14, 22], [4, 15, 23], [4, 16, 23], [4,
        17, 23], [5, 9, 21], [5, 10, 21], [5, 11, 21], [5, 12, 22], [5, 13, 22], [5, 14,
        22], [5, 15, 23], [5, 16, 23], [5, 17, 23], [6, 9, 24], [6, 10, 24], [6, 11, 24],
        [6, 12, 25], [6, 13, 25], [6, 14, 25], [6, 15, 26], [6, 16, 26], [6, 17, 26], [7,
        9, 24], [7, 10, 24], [7, 11, 24], [7, 12, 25], [7, 13, 25], [7, 14, 25], [7, 15,
        26], [7, 16, 26], [7, 17, 26], [8, 9, 24], [8, 10, 24], [8, 11, 24], [8, 12, 25],
        [8, 13, 25], [8, 14, 25], [8, 15, 26], [8, 16, 26], [8, 17, 26]]\<rparr>"
  by code_simp

text \<open>
  The second loop nest of \<open>init\<close> only appends to rows of \<open>_neighbors\<close>: row \<open>k\<close>
  receives, group by group, the members other than \<open>k\<close>.
\<close>

lemma init_neighbor_loop:
  "k < length (neighbors T) \<Longrightarrow>
   fold (\<lambda>j. init_neighbor k x j) js T =
     T\<lparr>neighbors := (neighbors T)[k := neighbors T ! k @
        filter (\<lambda>k2. k2 \<noteq> k) (map (\<lambda>j. group T ! (groups_of T ! k ! x) ! j) js)]\<rparr>"
proof (induction js arbitrary: T)
  case Nil
  then show ?case by simp
next
  case (Cons j js)
  let ?T = "init_neighbor k x j T"
  have eq: "group ?T = group T" "groups_of ?T = groups_of T"
    "neighbors ?T = (neighbors T)[k := neighbors T ! k @
        filter (\<lambda>k2. k2 \<noteq> k) [group T ! (groups_of T ! k ! x) ! j]]"
    using Cons.prems by (simp_all add: init_neighbor_def Let_def push_back_def)
  have "k < length (neighbors ?T)" using Cons.prems eq(3) by simp
  from Cons.IH[OF this] show ?case
    using Cons.prems by (simp add: eq)
qed

lemma init_neighbor_groups:
  "k < length (neighbors T) \<Longrightarrow>
   fold (\<lambda>x. fold (\<lambda>j. init_neighbor k x j) [0..<9]) xs T =
     T\<lparr>neighbors := (neighbors T)[k := neighbors T ! k @
        concat (map (\<lambda>x. filter (\<lambda>k2. k2 \<noteq> k)
                          (map (\<lambda>j. group T ! (groups_of T ! k ! x) ! j) [0..<9])) xs)]\<rparr>"
proof (induction xs arbitrary: T)
  case Nil
  then show ?case by simp
next
  case (Cons x xs)
  let ?T = "fold (\<lambda>j. init_neighbor k x j) [0..<9] T"
  have T: "?T = T\<lparr>neighbors := (neighbors T)[k := neighbors T ! k @
        filter (\<lambda>k2. k2 \<noteq> k) (map (\<lambda>j. group T ! (groups_of T ! k ! x) ! j) [0..<9])]\<rparr>"
    using Cons.prems by (rule init_neighbor_loop)
  then have "k < length (neighbors ?T)" using Cons.prems by simp
  from Cons.IH[OF this] show ?case
    using Cons.prems by (simp add: T del: upt_Suc)
qed

lemma map_upt_nth: "map (\<lambda>i. f (xs ! i)) [0..<length xs] = map f xs"
  by (rule nth_equalityI) simp_all

text \<open>The row of \<open>_neighbors\<close> that the tables \<open>_group\<close> and \<open>_groups_of\<close> determine.\<close>

lemma init_neighbors_rows:
  assumes "set ks \<subseteq> {0..<length (neighbors T)}" "distinct ks"
  shows "fold (\<lambda>k T. fold (\<lambda>x. fold (\<lambda>j. init_neighbor k x j) [0..<9])
                        [0..<length (groups_of T ! k)] T) ks T =
     T\<lparr>neighbors := map (\<lambda>k. if k \<in> set ks
          then neighbors T ! k @
            concat (map (\<lambda>x. filter (\<lambda>k2. k2 \<noteq> k) (map (\<lambda>j. group T ! x ! j) [0..<9]))
                      (groups_of T ! k))
          else neighbors T ! k) [0..<length (neighbors T)]\<rparr>"
  using assms
proof (induction ks arbitrary: T)
  case Nil
  then show ?case by (simp add: map_nth)
next
  case (Cons k ks)
  let ?row = "\<lambda>T k. concat (map (\<lambda>x. filter (\<lambda>k2. k2 \<noteq> k) (map (\<lambda>j. group T ! x ! j) [0..<9]))
                      (groups_of T ! k))"
  let ?T = "fold (\<lambda>x. fold (\<lambda>j. init_neighbor k x j) [0..<9]) [0..<length (groups_of T ! k)] T"
  have k: "k < length (neighbors T)" using Cons.prems(1) by simp
  have "concat (map (\<lambda>x. filter (\<lambda>k2. k2 \<noteq> k)
                          (map (\<lambda>j. group T ! (groups_of T ! k ! x) ! j) [0..<9]))
          [0..<length (groups_of T ! k)]) = ?row T k"
    using map_upt_nth[of "\<lambda>x. filter (\<lambda>k2. k2 \<noteq> k) (map (\<lambda>j. group T ! x ! j) [0..<9])" "groups_of T ! k"]
    by simp
  then have T: "?T = T\<lparr>neighbors := (neighbors T)[k := neighbors T ! k @ ?row T k]\<rparr>"
    using init_neighbor_groups[OF k, of "[0..<length (groups_of T ! k)]"] by simp
  have pre: "set ks \<subseteq> {0..<length (neighbors ?T)}" "distinct ks"
    using Cons.prems by (simp_all add: T)
  have "map (\<lambda>i. if i \<in> set ks then neighbors ?T ! i @ ?row ?T i else neighbors ?T ! i)
          [0..<length (neighbors ?T)]
      = map (\<lambda>i. if i \<in> set (k # ks) then neighbors T ! i @ ?row T i else neighbors T ! i)
          [0..<length (neighbors T)]"
    using Cons.prems(2) k by (auto simp: T nth_list_update)
  then show ?case
    using Cons.IH[OF pre] by (simp add: T)
qed

lemma neighbors_init_neighbors:
  "k < length (neighbors T) \<Longrightarrow>
   neighbors (init_neighbors T) ! k =
     neighbors T ! k @
     concat (map (\<lambda>x. filter (\<lambda>k2. k2 \<noteq> k) (map (\<lambda>j. group T ! x ! j) [0..<9]))
               (groups_of T ! k))"
  unfolding init_neighbors_def
  by (subst init_neighbors_rows) (simp_all del: upt_Suc)

lemma init_neighbors_others:
  "group (init_neighbors T) = group T" "groups_of (init_neighbors T) = groups_of T"
  "length (neighbors (init_neighbors T)) = length (neighbors T)"
  unfolding init_neighbors_def
  by (subst init_neighbors_rows; simp del: upt_Suc)+

lemma init_tables:
  "group (init static_topology) = group (init_groups static_topology)"
  "groups_of (init static_topology) = groups_of (init_groups static_topology)"
  "length (neighbors (init static_topology)) = 81"
  by (simp_all add: init_def init_neighbors_others) (simp add: init_groups_static)

lemma init_groups_checked:
  "list_all (list_all (\<lambda>x. x < 27 \<and> length (group (init_groups static_topology) ! x) = 9 \<and>
       list_all (\<lambda>p. p < 81) (group (init_groups static_topology) ! x)))
     (groups_of (init_groups static_topology))"
  by (simp add: init_groups_static)

lemma init_groups_members:
  "list_all (\<lambda>x. distinct (group (init_groups static_topology) ! x) \<and>
       list_all (\<lambda>a. x \<in> set (groups_of (init_groups static_topology) ! a))
         (group (init_groups static_topology) ! x)) [0..<27]"
  by (simp add: init_groups_static upt_rec)

lemma init_lengths:
  "length (group (init static_topology)) = 27" "length (groups_of (init static_topology)) = 81"
  by (simp_all add: init_tables init_groups_static)

lemma groups_of_init:
  assumes "k < 81" "x \<in> set (groups_of (init static_topology) ! k)"
  shows "x < 27" "length (group (init static_topology) ! x) = 9"
    "\<forall>p \<in> set (group (init static_topology) ! x). p < 81"
  using init_groups_checked assms
  by (auto simp: init_tables init_lengths[unfolded init_tables] list_all_length in_set_conv_nth)

lemma group_init:
  assumes "x < 27"
  shows "distinct (group (init static_topology) ! x)"
    "\<forall>a \<in> set (group (init static_topology) ! x). x \<in> set (groups_of (init static_topology) ! a)"
  using init_groups_members assms by (auto simp: init_tables list_all_iff)

lemma map_nth_9: "length g = 9 \<Longrightarrow> map (\<lambda>j. g ! j) [0..<9] = g"
  using map_nth[of g] by simp

text \<open>
  After \<open>init\<close>, the neighbours of a cell are the other members of its groups, group
  by group (a cell that shares two groups with \<open>k\<close> is listed twice).
\<close>

lemma neighbors_init:
  assumes "k < 81"
  shows "neighbors (init static_topology) ! k =
     concat (map (\<lambda>x. filter (\<lambda>k2. k2 \<noteq> k) (group (init static_topology) ! x))
               (groups_of (init static_topology) ! k))"
proof -
  let ?T = "init_groups static_topology"
  have nb: "neighbors ?T = replicate 81 []" by (simp add: init_groups_static)
  have "neighbors (init static_topology) ! k =
      concat (map (\<lambda>x. filter (\<lambda>k2. k2 \<noteq> k) (map (\<lambda>j. group ?T ! x ! j) [0..<9]))
               (groups_of ?T ! k))"
    using assms neighbors_init_neighbors[of k ?T] by (simp add: init_def nb)
  also have "\<dots> = concat (map (\<lambda>x. filter (\<lambda>k2. k2 \<noteq> k) (group ?T ! x)) (groups_of ?T ! k))"
  proof -
    have "map (\<lambda>j. group ?T ! x ! j) [0..<9] = group ?T ! x" if "x \<in> set (groups_of ?T ! k)" for x
      using groups_of_init(2)[OF assms, of x] that by (simp add: init_tables map_nth_9)
    then show ?thesis by (simp cong: map_cong del: upt_Suc)
  qed
  finally show ?thesis by (simp add: init_tables)
qed

lemma set_neighbors_init:
  "k < 81 \<Longrightarrow> set (neighbors (init static_topology) ! k) =
     {p. p \<noteq> k \<and> (\<exists>x \<in> set (groups_of (init static_topology) ! k).
                      p \<in> set (group (init static_topology) ! x))}"
  by (auto simp: neighbors_init)

lemma wf_init: "wf_topology (init static_topology)"
proof -
  let ?T = "init static_topology"
  have "list_all (\<lambda>p. p < 81) (neighbors ?T ! k)" if "k < 81" for k
    using that groups_of_init(3)[OF that] by (auto simp: list_all_iff set_neighbors_init)
  then have "list_all (list_all (\<lambda>p. p < 81)) (neighbors ?T)"
    by (simp add: list_all_length init_tables)
  moreover have "list_all (list_all (\<lambda>x. x < 27 \<and> 9 \<le> length (group ?T ! x) \<and>
      list_all (\<lambda>p. p < 81) (group ?T ! x))) (groups_of ?T)"
    using init_groups_checked by (simp add: init_tables list_all_iff)
  ultimately show ?thesis
    by (simp add: wf_topology_def init_lengths init_tables(3))
qed

text \<open>Two different cells of one group are neighbours of each other.\<close>

lemma group_mates:
  assumes "x < 27" "a \<in> set (group (init static_topology) ! x)"
    "b \<in> set (group (init static_topology) ! x)" "a \<noteq> b"
  shows "b \<in> set (neighbors (init static_topology) ! a)"
proof -
  have "x \<in> set (groups_of (init static_topology) ! a)" using group_init(2)[OF assms(1)] assms(2) by blast
  moreover have "a < 81"
  proof -
    have "list_all (\<lambda>x. list_all (\<lambda>p. p < 81) (group (init_groups static_topology) ! x)) [0..<27]"
      by (simp add: init_groups_static upt_rec)
    then show ?thesis using assms(1,2) by (auto simp: init_tables list_all_iff)
  qed
  ultimately show ?thesis using assms(3,4) by (auto simp: set_neighbors_init)
qed

subsection \<open>What a successful propagation keeps\<close>

lemma shrinks_wf_rev: "shrinks s s' \<Longrightarrow> wf_sudoku s' \<Longrightarrow> wf_sudoku s"
  by (auto simp: shrinks_def wf_sudoku_def list_all_length)

lemma propagates_refl: "propagates T s s"
  by (simp add: propagates_def shrinks_refl)

lemma propagates_trans:
  assumes "propagates T a b" "propagates T b c"
  shows "propagates T a c"
proof -
  have "length b = length a" using assms(1) by (simp add: propagates_def shrinks_def)
  then show ?thesis
    using assms shrinks_trans[of a b c] by (auto simp: propagates_def)
qed

lemma propagates_shrinks: "propagates T s s' \<Longrightarrow> shrinks s s'"
  by (simp add: propagates_def)

lemma only_candidate:
  assumes "1 \<le> v" "v \<le> int (length b)" "0 < count b"
    and "\<And>i. 1 \<le> i \<Longrightarrow> i \<le> int (length b) \<Longrightarrow> i \<noteq> v \<Longrightarrow> \<not> is_on b i"
  shows "is_on b v" and "count b = 1" and "val b = v"
proof -
  have other: "\<not> b ! j" if "j < length b" "j \<noteq> nat (v - 1)" for j
    using assms(4)[of "int j + 1"] that assms(1) by (auto simp: is_on_def)
  from assms(3) obtain j where j: "j < length b" "b ! j" by (auto simp: count_pos_iff)
  with other have "j = nat (v - 1)" by blast
  with j show on: "is_on b v" by (simp add: is_on_def)
  have "count (b[nat (v - 1) := False]) = 0"
  proof (rule ccontr)
    assume "count (b[nat (v - 1) := False]) \<noteq> 0"
    then obtain i where "i < length b" "b[nat (v - 1) := False] ! i"
      using count_pos_iff[of "b[nat (v - 1) := False]"] by auto
    then show False using other[of i] by (cases "i = nat (v - 1)") auto
  qed
  moreover have "Suc (count (b[nat (v - 1) := False])) = count b"
    using on assms(1,2) by (intro count_update_False) (auto simp: is_on_def)
  ultimately show "count b = 1" by simp
  then show "val b = v" using on assms(1,2) by (rule count_one_val)
qed

text \<open>A cell that was not touched stays pruned while the board shrinks.\<close>

lemma pruned_shrinks:
  assumes "wf_topology T" "wf_sudoku s" "shrinks s s'" "c < 81" "s' ! c = s ! c" "pruned T s c"
  shows "pruned T s' c"
  unfolding pruned_def
proof (intro impI ballI)
  fix p assume one: "count (s' ! c) = 1" and p: "p \<in> set (neighbors T ! c)"
  let ?w = "val (s ! c)"
  have "1 \<le> ?w" "?w \<le> 9"
    using val_first(1,2)[of "s ! c"] one assms(5) wf_cell[OF assms(2,4)] by simp_all
  moreover have "p < 81" using neighbors_lt[OF assms(1,4) p] .
  moreover have "\<not> is_on (s ! p) ?w" using assms(6) one p assms(5) by (simp add: pruned_def)
  ultimately have "p < length s" "nat (?w - 1) < length (s ! p)" "\<not> is_on (s ! p) ?w"
    using assms(2) wf_cell[OF assms(2), of p] by (simp_all add: wf_sudoku_def)
  then have "\<not> is_on (s' ! p) ?w"
    using shrinks_is_on[OF assms(3), of p ?w] by blast
  then show "\<not> is_on (s' ! p) (val (s' ! c))" by (simp add: assms(5))
qed

lemma update_keeps:
  assumes T: "wf_topology T" and wf: "wf_sudoku s" and k: "k < 81"
    and pos: "0 < count (s[k := eliminate_bit (s ! k) v] ! k)"
  shows "\<forall>c < 81. 0 < count (s ! c) \<longrightarrow> 0 < count (s[k := eliminate_bit (s ! k) v] ! c)"
    and "\<forall>c < 81. c \<noteq> k \<longrightarrow> pruned T s c \<longrightarrow> pruned T (s[k := eliminate_bit (s ! k) v]) c"
proof -
  let ?s1 = "s[k := eliminate_bit (s ! k) v]"
  show "\<forall>c < 81. 0 < count (s ! c) \<longrightarrow> 0 < count (?s1 ! c)"
  proof (intro allI impI)
    fix c assume "c < 81" "0 < count (s ! c)"
    then show "0 < count (?s1 ! c)" using pos by (cases "c = k") simp_all
  qed
  show "\<forall>c < 81. c \<noteq> k \<longrightarrow> pruned T s c \<longrightarrow> pruned T ?s1 c"
  proof (intro allI impI)
    fix c assume "c < 81" "c \<noteq> k" "pruned T s c"
    then show "pruned T ?s1 c"
      using pruned_shrinks[OF T wf shrinks_eliminate_bit, of c k v] by simp
  qed
qed

lemma eliminate_propagates:
  assumes T: "wf_topology T"
  shows "wf_sudoku s \<Longrightarrow> k < 81 \<Longrightarrow> 1 \<le> v \<Longrightarrow> v \<le> 9 \<Longrightarrow> eliminate n T k v s = Some (True, s')
         \<Longrightarrow> propagates T s s'"
proof (induction n arbitrary: k v s s')
  case 0
  then show ?case by simp
next
  case (Suc n)
  let ?s1 = "s[k := eliminate_bit (s ! k) v]"
  let ?E = "eliminate n T"
  note wf = Suc.prems(1) and k = Suc.prems(2)
  have len: "length s = 81" using wf by (simp add: wf_sudoku_def)
  have wf1: "wf_sudoku ?s1" using wf shrinks_eliminate_bit shrinks_wf by blast
  have step: "propagates T t t'"
    if "wf_sudoku u" "propagates T u t" "p < 81" "1 \<le> i" "i \<le> 9" "?E p i t = Some (True, t')"
    for u t p i t'
  proof -
    have "wf_sudoku t" using that(1,2) propagates_shrinks shrinks_wf by blast
    then show ?thesis using Suc.IH[of t p i t'] that by simp
  qed
  have groups: "propagates T u u'"
    if u: "wf_sudoku u" and run: "for_all (check_group ?E T v) (groups_of T ! k) u = Some (True, u')"
    for u u'
  proof (rule for_all_ok[OF run])
    fix x t t'
    assume x: "x \<in> set (groups_of T ! k)" and t: "propagates T u t"
      and c: "check_group ?E T v x t = Some (True, t')"
    show "propagates T t t'"
    proof (rule check_group_ok[OF c])
      fix p and i :: int and w w'
      assume "p \<in> (\<lambda>j. group T ! x ! j) ` {0..<9}" "1 \<le> i" "i \<le> 9" "propagates T t w"
        "?E p i w = Some (True, w')"
      then show "propagates T w w'"
        using step[OF u propagates_trans[OF t], of w p i w'] group_member_lt[OF T k x] by simp
    qed (use propagates_refl propagates_trans in blast)+
  qed (use propagates_refl propagates_trans in blast)+
  from Suc.prems(5) show ?case
  proof (cases rule: eliminate_Suc_cases)
    case off
    then show ?thesis by (simp add: propagates_refl)
  next
    case dead
    then show ?thesis by simp
  next
    case peer
    then show ?thesis by simp
  next
    case several
    have pos: "0 < count (?s1 ! k)" using several(2) by simp
    have "pruned T ?s1 k" using several(2) by (simp add: pruned_def)
    then have "propagates T s ?s1"
      using update_keeps[OF T wf k pos] shrinks_eliminate_bit[of s k v] len
      by (auto simp: propagates_def)
    moreover have "propagates T ?s1 s'" using wf1 several(3) by (rule groups)
    ultimately show ?thesis by (rule propagates_trans)
  next
    case (single s2)
    let ?w = "val (?s1 ! k)"
    have pos: "0 < count (?s1 ! k)" using single(2) by simp
    have cell: "length (?s1 ! k) = 9" using wf1 k by (rule wf_cell)
    have w: "1 \<le> ?w" "?w \<le> 9" using val_first(1,2)[OF pos] cell by simp_all
    have A: "propagates T ?s1 s2"
    proof (rule for_all_ok[OF single(3)])
      fix p t t'
      assume "p \<in> set (neighbors T ! k)" "propagates T ?s1 t" "?E p ?w t = Some (True, t')"
      then show "propagates T t t'"
        using step[OF wf1, of t p ?w t'] neighbors_lt[OF T k] w by simp
    qed (use propagates_refl propagates_trans in blast)+
    have sh: "shrinks ?s1 s2" using A by (rule propagates_shrinks)
    have wf2: "wf_sudoku s2" using sh wf1 by (rule shrinks_wf)
    have B: "\<forall>p \<in> set (neighbors T ! k). p < 81 \<longrightarrow> wf_sudoku s2 \<longrightarrow> \<not> is_on (s2 ! p) ?w"
    proof (rule for_all_each[OF single(3)])
      fix p t t' assume run: "?E p ?w t = Some (True, t')"
      show "p < 81 \<longrightarrow> wf_sudoku t' \<longrightarrow> \<not> is_on (t' ! p) ?w"
      proof (intro impI)
        assume p: "p < 81" and t': "wf_sudoku t'"
        have "wf_sudoku t" using eliminate_shrinks[OF run] t' by (rule shrinks_wf_rev)
        then have "p < length t" "nat (?w - 1) < length (t ! p)"
          using p w wf_cell[of t p] by (simp_all add: wf_sudoku_def)
        with run show "\<not> is_on (t' ! p) ?w" by (rule eliminate_off_after)
      qed
    next
      fix p q t t'
      assume "p \<in> set (neighbors T ! k)" "q \<in> set (neighbors T ! k)"
        and q: "p < 81 \<longrightarrow> wf_sudoku t \<longrightarrow> \<not> is_on (t ! p) ?w" and run: "?E q ?w t = Some (True, t')"
      show "p < 81 \<longrightarrow> wf_sudoku t' \<longrightarrow> \<not> is_on (t' ! p) ?w"
      proof (intro impI)
        assume p: "p < 81" and t': "wf_sudoku t'"
        have sh: "shrinks t t'" using run by (rule eliminate_shrinks)
        have t: "wf_sudoku t" using sh t' by (rule shrinks_wf_rev)
        then have "p < length t" "nat (?w - 1) < length (t ! p)"
          using p w wf_cell[of t p] by (simp_all add: wf_sudoku_def)
        then show "\<not> is_on (t' ! p) ?w" using q p t shrinks_is_on[OF sh] by blast
      qed
    qed
    have "0 < count (s2 ! k)" using A pos k wf1 by (auto simp: propagates_def wf_sudoku_def)
    then have "count (?s1 ! k) \<le> count (s2 ! k)" using single(2) by simp
    moreover have "length (s2 ! k) = length (?s1 ! k)" "\<forall>i < length (?s1 ! k). s2 ! k ! i \<longrightarrow> ?s1 ! k ! i"
      using sh k wf1 by (auto simp: shrinks_def wf_sudoku_def)
    ultimately have same: "s2 ! k = ?s1 ! k" by (intro count_eq_same) auto
    have D: "pruned T s2 k"
      using B wf2 neighbors_lt[OF T k] by (auto simp: pruned_def same)
    have "propagates T s s2"
      unfolding propagates_def
    proof (intro conjI allI impI)
      show "shrinks s s2" using shrinks_eliminate_bit sh by (rule shrinks_trans)
    next
      fix c assume c: "c < length s" "0 < count (s ! c)"
      then have "0 < count (?s1 ! c)" using update_keeps(1)[OF T wf k pos] len by simp
      then show "0 < count (s2 ! c)" using A c(1) by (simp add: propagates_def)
    next
      fix c assume c: "c < length s" "pruned T s c"
      show "pruned T s2 c"
      proof (cases "c = k")
        case True
        then show ?thesis using D by simp
      next
        case False
        then have "pruned T ?s1 c" using update_keeps(2)[OF T wf k pos] c len by simp
        then show ?thesis using A c(1) by (simp add: propagates_def)
      qed
    qed
    moreover have "propagates T s2 s'" using wf2 single(4) by (rule groups)
    ultimately show ?thesis by (rule propagates_trans)
  qed
qed

lemma assign_propagates:
  assumes "wf_topology T" "wf_sudoku s" "k < 81" "assign n T k v s = Some (True, s')"
  shows "propagates T s s'"
proof (rule assign_with_ok[OF assms(4)[unfolded assign_def]])
  fix i :: int and t t'
  assume "1 \<le> i" "i \<le> 9" "propagates T s t" "eliminate n T k i t = Some (True, t')"
  moreover from this have "wf_sudoku t" using assms(2) propagates_shrinks shrinks_wf by blast
  ultimately show "propagates T t t'" using eliminate_propagates[OF assms(1) _ assms(3)] by blast
qed (use propagates_refl propagates_trans in blast)+

subsection \<open>val\<close>

lemma val_none: "count b = 0 \<Longrightarrow> val b = - 1"
proof -
  assume "count b = 0"
  then have "\<forall>x \<in> set b. \<not> x" by (simp add: count_def filter_empty_conv)
  then have "takeWhile Not b = b" by (simp add: takeWhile_eq_all_conv)
  then have "length (takeWhile Not b) = length b" by (rule arg_cong)
  then show ?thesis by (simp add: val_def Let_def)
qed

lemma val_least: "1 \<le> i \<Longrightarrow> i < val b \<Longrightarrow> \<not> is_on b i"
proof -
  assume i: "1 \<le> i" "i < val b"
  let ?n = "length (takeWhile (\<lambda>x. \<not> x) b)"
  have "nat (i - 1) < ?n" using i by (auto simp: val_def Let_def split: if_splits)
  then have "\<not> b ! nat (i - 1)"
    using nth_mem[of "nat (i - 1)" "takeWhile (\<lambda>x. \<not> x) b"] set_takeWhileD[of "b ! nat (i - 1)" "\<lambda>x. \<not> x" b]
    by (simp add: takeWhile_nth)
  then show ?thesis by (simp add: is_on_def)
qed

text \<open>
  Claim C5, as the code has it. \<open>val\<close> returns the smallest digit that is still on
  whenever there is one: the sole remaining digit when the count is 1, and also a digit
  (not a sentinel) when the count is greater than 1. It returns \<open>-1\<close> exactly when no
  digit is left.
\<close>

theorem val_is_first_candidate:
  "(0 < count b \<longrightarrow> 1 \<le> val b \<and> val b \<le> int (length b) \<and> is_on b (val b) \<and>
      (\<forall>i. 1 \<le> i \<and> i < val b \<longrightarrow> \<not> is_on b i)) \<and>
   (count b = 1 \<longrightarrow> (\<forall>i. 1 \<le> i \<and> i \<le> int (length b) \<and> is_on b i \<longrightarrow> i = val b)) \<and>
   (count b = 0 \<longrightarrow> val b = - 1)"
proof (intro conjI impI allI)
  fix i assume "count b = 1" "1 \<le> i \<and> i \<le> int (length b) \<and> is_on b i"
  then show "i = val b" using count_one_val[of b i] by simp
qed (use val_first[of b] val_least[of _ b] val_none[of b] in auto)

theorem val_is_first_candidate_witness:
  "count [False, False, True, False, False, False, False, False, False] = 1 \<and>
   val [False, False, True, False, False, False, False, False, False] = 3 \<and>
   is_on [False, False, True, False, False, False, False, False, False] 3 \<and>
   count (replicate 9 False) = 0 \<and> val (replicate 9 False) = - 1"
  using val_is_first_candidate[of "[False, False, True, False, False, False, False, False, False]"]
    val_is_first_candidate[of "replicate 9 False"]
  by (simp add: count_def val_def is_on_def)

text \<open>
  The claim as stated fails on a fresh cell: the count is 9, not 1, and \<open>val\<close>
  returns the digit 1, not the sentinel.
\<close>

theorem val_of_several_counterexample:
  "count Possible = 9 \<and> count Possible \<noteq> 1 \<and> val Possible = 1 \<and> val Possible \<noteq> - 1"
  by (simp add: Possible_def count_def val_def)

subsection \<open>least_count\<close>

lemma least_so_far_step:
  assumes "least_so_far s m st"
  shows "least_so_far s (Suc m) (least_count_step s m st)"
proof -
  obtain k mn where st: "st = (k, mn)" by (cases st)
  let ?c = "count (s ! m)"
  from assms[unfolded st least_so_far_def] consider
    (none) "k = - 1" "\<forall>i < m. count (s ! i) \<le> 1"
    | (some) "0 \<le> k" "nat k < m" "mn = count (s ! nat k)" "1 < mn"
        "\<forall>j < m. 1 < count (s ! j) \<longrightarrow> mn \<le> count (s ! j) \<and> (count (s ! j) = mn \<longrightarrow> nat k \<le> j)"
    by auto
  then show ?thesis
  proof cases
    case none
    show ?thesis
    proof (cases "1 < ?c")
      case True
      then have "least_count_step s m st = (int m, ?c)"
        using none st by (simp add: least_count_step_def)
      moreover have "\<forall>j < Suc m. 1 < count (s ! j) \<longrightarrow> ?c \<le> count (s ! j) \<and> (count (s ! j) = ?c \<longrightarrow> m \<le> j)"
        using none(2) by (auto simp: less_Suc_eq dest: leD)
      ultimately show ?thesis using True by (simp add: least_so_far_def)
    next
      case False
      then have "least_count_step s m st = (k, mn)"
        using st by (simp add: least_count_step_def)
      moreover have "\<forall>i < Suc m. count (s ! i) \<le> 1"
        using none(2) False by (auto simp: less_Suc_eq)
      ultimately show ?thesis using none(1) by (simp add: least_so_far_def)
    qed
  next
    case some
    show ?thesis
    proof (cases "1 < ?c \<and> ?c < mn")
      case True
      then have "least_count_step s m st = (int m, ?c)"
        using st by (simp add: least_count_step_def)
      moreover have "\<forall>j < Suc m. 1 < count (s ! j) \<longrightarrow> ?c \<le> count (s ! j) \<and> (count (s ! j) = ?c \<longrightarrow> m \<le> j)"
        using some(5) True by (fastforce simp: less_Suc_eq)
      ultimately show ?thesis using True by (simp add: least_so_far_def)
    next
      case False
      then have "least_count_step s m st = (k, mn)"
        using st some(1) by (auto simp: least_count_step_def)
      moreover have "\<forall>j < Suc m. 1 < count (s ! j) \<longrightarrow> mn \<le> count (s ! j) \<and> (count (s ! j) = mn \<longrightarrow> nat k \<le> j)"
        using some(2,5) False by (auto simp: less_Suc_eq)
      ultimately show ?thesis using some by (simp add: least_so_far_def)
    qed
  qed
qed

lemma least_so_far_fold: "least_so_far s m (fold (least_count_step s) [0..<m] (- 1, 0))"
proof (induction m)
  case 0
  then show ?case by (simp add: least_so_far_def)
next
  case (Suc m)
  then show ?case using least_so_far_step[of s m] by simp
qed

lemma least_count_cases:
  "(least_count s = - 1 \<longleftrightarrow> (\<forall>i < length s. count (s ! i) \<le> 1)) \<and>
   (least_count s \<noteq> - 1 \<longrightarrow>
      0 \<le> least_count s \<and> nat (least_count s) < length s \<and>
      1 < count (s ! nat (least_count s)) \<and>
      (\<forall>j < length s. 1 < count (s ! j) \<longrightarrow>
         count (s ! nat (least_count s)) \<le> count (s ! j) \<and>
         (count (s ! j) = count (s ! nat (least_count s)) \<longrightarrow> nat (least_count s) \<le> j)))"
proof -
  obtain k mn where f: "fold (least_count_step s) [0..<length s] (- 1, 0) = (k, mn)"
    by (cases "fold (least_count_step s) [0..<length s] (- 1, 0)")
  then have k: "least_count s = k" by (simp add: least_count_def)
  from least_so_far_fold[of s "length s"] f consider
    (none) "k = - 1" "\<forall>i < length s. count (s ! i) \<le> 1"
    | (some) "0 \<le> k" "nat k < length s" "mn = count (s ! nat k)" "1 < mn"
        "\<forall>j < length s. 1 < count (s ! j) \<longrightarrow> mn \<le> count (s ! j) \<and> (count (s ! j) = mn \<longrightarrow> nat k \<le> j)"
    by (auto simp: least_so_far_def)
  then show ?thesis
  proof cases
    case none
    then show ?thesis using k by simp
  next
    case some
    have "\<not> (\<forall>i < length s. count (s ! i) \<le> 1)" using some(2,3,4) by (auto simp: not_le)
    with some show ?thesis using k by auto
  qed
qed

text \<open>
  Claim C6. \<open>least_count\<close> scans every cell of the board (81 of them on a well-formed
  board). It returns \<open>-1\<close> exactly when no cell has more than one candidate;
  otherwise it returns the index of a cell whose count is above 1 and least among the
  counts above 1, and among the cells with that count the one of lowest index.
\<close>

theorem least_count_spec:
  "(least_count s = - 1 \<longleftrightarrow> (\<forall>i < length s. count (s ! i) \<le> 1)) \<and>
   (least_count s \<noteq> - 1 \<longrightarrow>
      0 \<le> least_count s \<and> nat (least_count s) < length s \<and>
      1 < count (s ! nat (least_count s)) \<and>
      (\<forall>j < length s. 1 < count (s ! j) \<longrightarrow>
         count (s ! nat (least_count s)) \<le> count (s ! j) \<and>
         (count (s ! j) = count (s ! nat (least_count s)) \<longrightarrow> nat (least_count s) \<le> j)))"
  by (rule least_count_cases)

theorem least_count_spec_witness:
  "least_count ((replicate 81 Possible)
      [0 := [True, False, False, False, False, False, False, False, False],
       5 := [True, True, False, False, False, False, False, False, False],
       7 := [False, True, False, False, False, False, False, False, True]]) = 5 \<and>
   least_count (replicate 81 [True, False, False, False, False, False, False, False, False]) = - 1"
  using least_count_spec[of "(replicate 81 Possible)
      [0 := [True, False, False, False, False, False, False, False, False],
       5 := [True, True, False, False, False, False, False, False, False],
       7 := [False, True, False, False, False, False, False, False, True]]"]
    least_count_spec[of "replicate 81 [True, False, False, False, False, False, False, False, False]"]
  by (simp add: least_count_def least_count_step_def count_def Possible_def upt_rec nth_list_update)

subsection \<open>The tables before init, and the fresh board\<close>

lemma wf_static_topology: "wf_topology static_topology"
  by (simp add: wf_topology_def static_topology_def list_all_length)

lemma wf_fresh: "wf_sudoku (replicate 81 Possible)"
  by (simp add: wf_sudoku_def Possible_def list_all_length)

lemma count_Possible: "count Possible = 9"
  by (simp add: Possible_def count_def)

lemma total_fresh: "total_count (replicate 81 Possible) = 729"
  by (simp add: total_count_def count_Possible sum_list_replicate)

lemma is_on_Possible: "1 \<le> i \<Longrightarrow> i \<le> 9 \<Longrightarrow> is_on Possible i"
  by (simp add: is_on_def Possible_def)

text \<open>
  Claim C4. On a well-formed board, with tables that stay inside the board, every call
  of \<open>assign\<close> and of \<open>eliminate\<close> returns as soon as the fuel (the bound on the
  depth of nested calls of \<open>eliminate\<close>) exceeds the sum of the candidate counts. The
  sum never grows, and a call that finds the digit on removes it first, which lowers the
  sum by one.
\<close>

theorem propagation_terminates:
  assumes "wf_topology T" "wf_sudoku s" "k < 81" "total_count s < n"
  shows "(\<exists>b s'. assign n T k v s = Some (b, s') \<and> total_count s' \<le> total_count s) \<and>
         (1 \<le> v \<and> v \<le> 9 \<longrightarrow>
            (\<exists>b s'. eliminate n T k v s = Some (b, s') \<and> total_count s' \<le> total_count s \<and>
               (is_on (s ! k) v \<longrightarrow>
                  Suc (total_count (s[k := eliminate_bit (s ! k) v])) = total_count s \<and> total_count s' < total_count s)))"
proof (intro conjI impI)
  from assign_returns[OF assms] obtain b s' where a: "assign n T k v s = Some (b, s')" by blast
  then have "total_count s' \<le> total_count s" using assign_shrinks shrinks_total by blast
  with a show "\<exists>b s'. assign n T k v s = Some (b, s') \<and> total_count s' \<le> total_count s" by blast
next
  assume v: "1 \<le> v \<and> v \<le> 9"
  then obtain b s' where e: "eliminate n T k v s = Some (b, s')"
    using eliminate_returns[OF assms(1,2,3) _ _ assms(4), of v] by blast
  have le: "total_count s' \<le> total_count s" using e eliminate_shrinks shrinks_total by blast
  have "Suc (total_count (s[k := eliminate_bit (s ! k) v])) = total_count s \<and> total_count s' < total_count s"
    if on: "is_on (s ! k) v"
  proof -
    have len: "k < length s" "nat (v - 1) < length (s ! k)"
      using assms(2,3) v wf_cell[OF assms(2,3)] by (auto simp: wf_sudoku_def)
    then have 1: "Suc (total_count (s[k := eliminate_bit (s ! k) v])) = total_count s"
      using on by (rule total_eliminate_bit)
    have "total_count s' \<le> total_count (s[k := eliminate_bit (s ! k) v])"
      using eliminate_shrinks_on[OF e on] by (rule shrinks_total)
    with 1 show ?thesis by simp
  qed
  with e le show "\<exists>b s'. eliminate n T k v s = Some (b, s') \<and> total_count s' \<le> total_count s \<and>
      (is_on (s ! k) v \<longrightarrow>
         Suc (total_count (s[k := eliminate_bit (s ! k) v])) = total_count s \<and> total_count s' < total_count s)"
    by blast
qed

theorem propagation_terminates_witness:
  "(\<exists>b s'. assign 730 (init static_topology) 0 1 (replicate 81 Possible) = Some (b, s') \<and>
       total_count s' \<le> 729) \<and>
   (\<exists>b s'. eliminate 730 (init static_topology) 0 2 (replicate 81 Possible) = Some (b, s') \<and>
       total_count s' < 729)"
  using propagation_terminates[OF wf_init wf_fresh, of 0 730 1]
    propagation_terminates[OF wf_init wf_fresh, of 0 730 2]
  by (simp add: total_fresh is_on_Possible) blast

subsection \<open>How a loop fails\<close>

lemma for_all_append:
  "for_all f (xs @ ys) s =
     (case for_all f xs s of
        None \<Rightarrow> None
      | Some (False, t) \<Rightarrow> Some (False, t)
      | Some (True, t) \<Rightarrow> for_all f ys t)"
  by (induction xs arbitrary: s) (auto split: option.splits bool.splits)

lemma for_all_fails_iff:
  "for_all f xs s = Some (False, s') \<longleftrightarrow>
     (\<exists>pre x post t. xs = pre @ x # post \<and> for_all f pre s = Some (True, t) \<and>
        f x t = Some (False, s'))"
proof
  assume "for_all f xs s = Some (False, s')"
  then show "\<exists>pre x post t. xs = pre @ x # post \<and> for_all f pre s = Some (True, t) \<and>
        f x t = Some (False, s')"
  proof (induction xs arbitrary: s)
    case Nil
    then show ?case by simp
  next
    case (Cons y ys)
    from Cons.prems consider "f y s = Some (False, s')"
      | u where "f y s = Some (True, u)" "for_all f ys u = Some (False, s')"
      by (auto split: option.splits bool.splits)
    then show ?case
    proof cases
      case 1
      have "y # ys = [] @ y # ys" "for_all f [] s = Some (True, s)" by simp_all
      with 1 show ?thesis by blast
    next
      case 2
      from Cons.IH[OF 2(2)] obtain pre x post t where
        r: "ys = pre @ x # post" "for_all f pre u = Some (True, t)" "f x t = Some (False, s')"
        by blast
      have "y # ys = (y # pre) @ x # post" "for_all f (y # pre) s = Some (True, t)"
        using r 2(1) by simp_all
      with r(3) show ?thesis by blast
    qed
  qed
next
  assume "\<exists>pre x post t. xs = pre @ x # post \<and> for_all f pre s = Some (True, t) \<and>
        f x t = Some (False, s')"
  then show "for_all f xs s = Some (False, s')"
    by (auto simp: for_all_append)
qed

lemma check_group_fails_iff:
  "check_group E T v x t = Some (False, s') \<longleftrightarrow>
     places T x v t = [] \<and> s' = t \<or>
     (\<exists>ks. places T x v t = [ks] \<and> assign_with E ks v t = Some (False, s'))"
proof (cases "places T x v t")
  case Nil
  then show ?thesis by (auto simp: check_group_def)
next
  case (Cons a ps)
  then show ?thesis by (cases ps) (auto simp: check_group_def Let_def)
qed

lemma peers_fail_iff:
  "for_all (\<lambda>p. eliminate n T p w) (neighbors T ! k) s1 = Some (False, s') \<longleftrightarrow>
   peer_fails n T k w s1 s'"
  by (simp add: for_all_fails_iff peer_fails_def)

lemma groups_fail_iff:
  "for_all (check_group (eliminate n T) T v) (groups_of T ! k) s2 = Some (False, s') \<longleftrightarrow>
   group_fails n T k v s2 s'"
  by (simp add: for_all_fails_iff group_fails_def check_group_fails_iff assign_def)

text \<open>
  A call of \<open>eliminate\<close> returns a flag and a board, never anything else. The flag is
  \<open>False\<close> exactly when the digit was on at the cell and, after its removal, the cell
  has no candidate left, or the cell is down to one digit and eliminating that digit at
  a neighbour fails, or, on the board the neighbours leave, the check of one of the
  groups recorded for the cell fails: no member admits the digit, or the assignment to
  its single place fails. Each cause is stated on the boards the call goes through, not
  on the board it returns.
\<close>

lemma eliminate_fails_exactly:
  assumes "wf_topology T" "wf_sudoku s" "k < 81" "1 \<le> v" "v \<le> 9" "total_count s \<le> n"
  shows "\<exists>b s'. eliminate (Suc n) T k v s = Some (b, s') \<and>
     (\<not> b \<longleftrightarrow>
        is_on (s ! k) v \<and>
        (count (s[k := eliminate_bit (s ! k) v] ! k) = 0 \<or>
         count (s[k := eliminate_bit (s ! k) v] ! k) = 1 \<and>
           (\<exists>u. peer_fails n T k (val (s[k := eliminate_bit (s ! k) v] ! k))
                  (s[k := eliminate_bit (s ! k) v]) u) \<or>
         (\<exists>s2 u. (if count (s[k := eliminate_bit (s ! k) v] ! k) = 1
                 then for_all (\<lambda>p. eliminate n T p (val (s[k := eliminate_bit (s ! k) v] ! k)))
                        (neighbors T ! k) (s[k := eliminate_bit (s ! k) v]) = Some (True, s2)
                 else s2 = s[k := eliminate_bit (s ! k) v]) \<and>
               group_fails n T k v s2 u)))"
proof -
  let ?s1 = "s[k := eliminate_bit (s ! k) v]"
  from eliminate_returns[OF assms(1-5), of "Suc n"] assms(6)
  obtain b s' where e: "eliminate (Suc n) T k v s = Some (b, s')" by auto
  have "\<not> b \<longleftrightarrow>
        is_on (s ! k) v \<and>
        (count (?s1 ! k) = 0 \<or>
         count (?s1 ! k) = 1 \<and> (\<exists>u. peer_fails n T k (val (?s1 ! k)) ?s1 u) \<or>
         (\<exists>s2 u. (if count (?s1 ! k) = 1
                 then for_all (\<lambda>p. eliminate n T p (val (?s1 ! k))) (neighbors T ! k) ?s1 = Some (True, s2)
                 else s2 = ?s1) \<and>
               group_fails n T k v s2 u))"
    using e
  proof (cases rule: eliminate_Suc_cases)
    case off
    then show ?thesis by simp
  next
    case dead
    then show ?thesis by simp
  next
    case peer
    then have "peer_fails n T k (val (?s1 ! k)) ?s1 s'" by (simp add: peers_fail_iff)
    then show ?thesis using peer(1,2,3) by blast
  next
    case (single s2)
    have "\<not> peer_fails n T k (val (?s1 ! k)) ?s1 u" for u
      using single(3) by (simp add: peers_fail_iff[symmetric])
    moreover have "\<not> b \<longleftrightarrow> (\<exists>u. group_fails n T k v s2 u)"
      using single(4) by (cases b) (simp_all add: groups_fail_iff[symmetric])
    ultimately show ?thesis using single(1,2,3) by simp
  next
    case several
    have "\<not> b \<longleftrightarrow> (\<exists>u. group_fails n T k v ?s1 u)"
      using several(3) by (cases b) (simp_all add: groups_fail_iff[symmetric])
    then show ?thesis using several(1,2) by simp
  qed
  with e show ?thesis by blast
qed

lemma total_count_le: "wf_sudoku s \<Longrightarrow> total_count s \<le> 729"
proof -
  assume wf: "wf_sudoku s"
  have "sum_list (map count s) \<le> sum_list (map (\<lambda>c. 9) s)"
  proof (rule sum_list_mono)
    fix c assume "c \<in> set s"
    then have "length c = 9" using wf by (auto simp: wf_sudoku_def list_all_iff)
    then show "count c \<le> 9" using count_le_length[of c] by simp
  qed
  also have "\<dots> = 729" using wf by (simp add: sum_list_triv wf_sudoku_def)
  finally show ?thesis by (simp add: total_count_def)
qed

lemma wf_update: "wf_sudoku s \<Longrightarrow> length c = 9 \<Longrightarrow> wf_sudoku (s[k := c])"
proof -
  assume wf: "wf_sudoku s" and c: "length c = 9"
  have "length (s[k := c] ! n) = 9" if "n < 81" for n
    using that wf c by (cases "n = k") (auto simp: wf_sudoku_def list_all_length)
  then show ?thesis using wf by (simp add: wf_sudoku_def list_all_length)
qed

text \<open>
  Claim C7, as the code has it. Calling \<open>eliminate\<close> a second time, on the board the
  first call left, changes nothing and returns \<open>True\<close>, whatever the first call
  returned: so the board after two calls is the board after one, and the two flags agree
  exactly when the first call succeeded. If the digit is already off at the cell, the
  call succeeds and changes nothing.
\<close>

theorem eliminate_twice:
  assumes "wf_topology T" "wf_sudoku s" "k < 81" "1 \<le> v" "v \<le> 9" "total_count s < n"
  shows "\<exists>b s'. eliminate n T k v s = Some (b, s') \<and>
           eliminate n T k v s' = Some (True, s') \<and>
           (\<not> is_on (s ! k) v \<longrightarrow> b \<and> s' = s)"
proof -
  from eliminate_returns[OF assms] obtain b s' where e: "eliminate n T k v s = Some (b, s')"
    by blast
  obtain m where n: "n = Suc m" using assms(6) by (cases n) auto
  have len: "k < length s" "nat (v - 1) < length (s ! k)"
    using assms(2-5) wf_cell[OF assms(2,3)] by (auto simp: wf_sudoku_def)
  have "\<not> is_on (s' ! k) v" using e len by (rule eliminate_off_after)
  then have "eliminate n T k v s' = Some (True, s')" by (simp add: n eliminate_off)
  moreover have "b \<and> s' = s" if "\<not> is_on (s ! k) v"
    using e that by (simp add: n eliminate_off)
  ultimately show ?thesis using e by blast
qed

theorem eliminate_twice_witness:
  "\<exists>b s'. eliminate 730 (init static_topology) 0 2 (replicate 81 Possible) = Some (b, s') \<and>
           eliminate 730 (init static_topology) 0 2 s' = Some (True, s')"
  using eliminate_twice[OF wf_init wf_fresh, of 0 2 730]
  by (simp add: total_fresh) blast

text \<open>After a successful \<open>assign\<close>, every digit but the assigned one is off at the cell.\<close>

lemma assign_others_off:
  assumes "wf_sudoku s" "k < 81" "assign n T k v s = Some (True, s')"
    and "1 \<le> i" "i \<le> 9" "i \<noteq> v"
  shows "\<not> is_on (s' ! k) i"
proof -
  have wf': "wf_sudoku s'" using assign_shrinks[OF assms(3)] assms(1) by (rule shrinks_wf)
  have off: "\<forall>i \<in> set [1..9]. i \<noteq> v \<longrightarrow> wf_sudoku s' \<longrightarrow> \<not> is_on (s' ! k) i"
  proof (rule for_all_each[OF assms(3)[unfolded assign_def assign_with_def]])
    fix i t t'
    assume i: "i \<in> set [1..9]" and run: "(if i \<noteq> v then eliminate n T k i t else Some (True, t)) = Some (True, t')"
    show "i \<noteq> v \<longrightarrow> wf_sudoku t' \<longrightarrow> \<not> is_on (t' ! k) i"
    proof (intro impI)
      assume ne: "i \<noteq> v" and t': "wf_sudoku t'"
      with run have e: "eliminate n T k i t = Some (True, t')" by simp
      have "wf_sudoku t" using eliminate_shrinks[OF e] t' by (rule shrinks_wf_rev)
      then have "k < length t" "nat (i - 1) < length (t ! k)"
        using i assms(2) wf_cell[of t k] by (auto simp: wf_sudoku_def)
      with e show "\<not> is_on (t' ! k) i" by (rule eliminate_off_after)
    qed
  next
    fix i j t t'
    assume i: "i \<in> set [1..9]"
      and q: "i \<noteq> v \<longrightarrow> wf_sudoku t \<longrightarrow> \<not> is_on (t ! k) i"
      and run: "(if j \<noteq> v then eliminate n T k j t else Some (True, t)) = Some (True, t')"
    show "i \<noteq> v \<longrightarrow> wf_sudoku t' \<longrightarrow> \<not> is_on (t' ! k) i"
    proof (cases "j = v")
      case True
      with run q show ?thesis by simp
    next
      case False
      with run have e: "eliminate n T k j t = Some (True, t')" by simp
      have sh: "shrinks t t'" using e by (rule eliminate_shrinks)
      show ?thesis
      proof (intro impI)
        assume ne: "i \<noteq> v" and t': "wf_sudoku t'"
        have t: "wf_sudoku t" using sh t' by (rule shrinks_wf_rev)
        then have "k < length t" "nat (i - 1) < length (t ! k)"
          using i assms(2) wf_cell[of t k] by (auto simp: wf_sudoku_def)
        moreover have "\<not> is_on (t ! k) i" using q ne t by simp
        ultimately show "\<not> is_on (t' ! k) i" using shrinks_is_on[OF sh] by blast
      qed
    qed
  qed
  then show ?thesis using assms(4-6) wf' by simp
qed

lemma assign_leaves_single:
  assumes "wf_topology T" "wf_sudoku s" "k < 81" "1 \<le> v" "v \<le> 9" "is_on (s ! k) v"
    and "assign n T k v s = Some (True, s')"
  shows "count (s' ! k) = 1 \<and> val (s' ! k) = v \<and> is_on (s' ! k) v \<and>
         (\<forall>i. 1 \<le> i \<and> i \<le> 9 \<and> i \<noteq> v \<longrightarrow> \<not> is_on (s' ! k) i) \<and>
         (1 < count (s ! k) \<or> pruned T s k \<longrightarrow> (\<forall>p \<in> set (neighbors T ! k). \<not> is_on (s' ! p) v))"
proof -
  have P: "propagates T s s'" using assms(1,2,3,7) by (rule assign_propagates)
  then have sh: "shrinks s s'" by (rule propagates_shrinks)
  have wf': "wf_sudoku s'" using sh assms(2) by (rule shrinks_wf)
  have cell: "length (s' ! k) = 9" "length (s ! k) = 9" "k < length s"
    using wf' assms(2,3) wf_cell by (auto simp: wf_sudoku_def)
  have "0 < count (s ! k)"
    using assms(4-6) cell by (auto simp: count_pos_iff is_on_def intro!: exI[of _ "nat (v - 1)"])
  then have pos: "0 < count (s' ! k)" using P cell by (simp add: propagates_def)
  have others: "\<not> is_on (s' ! k) i" if "1 \<le> i" "i \<le> 9" "i \<noteq> v" for i
    using assms(2,3,7) that by (rule assign_others_off)
  have only: "is_on (s' ! k) v" "count (s' ! k) = 1" "val (s' ! k) = v"
    using only_candidate[of v "s' ! k"] assms(4,5) pos others cell(1) by simp_all
  have "\<forall>p \<in> set (neighbors T ! k). \<not> is_on (s' ! p) v" if "1 < count (s ! k) \<or> pruned T s k"
  proof -
    have "pruned T s k" using that by (auto simp: pruned_def)
    then have "pruned T s' k" using P cell(3) by (simp add: propagates_def)
    then show ?thesis using only by (simp add: pruned_def)
  qed
  with only others show ?thesis by blast
qed

text \<open>
  \<open>assign\<close> of a digit that is off at a cell that still has a candidate fails: it
  would have to remove every candidate of the cell.
\<close>

lemma assign_off_fails:
  assumes "wf_topology T" "wf_sudoku s" "k < 81" "1 \<le> v" "v \<le> 9"
    and "\<not> is_on (s ! k) v" "0 < count (s ! k)" "assign n T k v s = Some (b, s')"
  shows "\<not> b"
proof
  assume b
  with assms(8) have a: "assign n T k v s = Some (True, s')" by simp
  have P: "propagates T s s'" using assms(1,2,3) a by (rule assign_propagates)
  then have sh: "shrinks s s'" by (rule propagates_shrinks)
  have wf': "wf_sudoku s'" using sh assms(2) by (rule shrinks_wf)
  have cell: "length (s' ! k) = 9" "length (s ! k) = 9" "k < length s"
    using wf' assms(2,3) wf_cell by (auto simp: wf_sudoku_def)
  have pos: "0 < count (s' ! k)" using P cell assms(7) by (simp add: propagates_def)
  have others: "\<not> is_on (s' ! k) i" if "1 \<le> i" "i \<le> 9" "i \<noteq> v" for i
    using assms(2,3) a that by (rule assign_others_off)
  have "is_on (s' ! k) v"
    using only_candidate(1)[of v "s' ! k"] assms(4,5) pos others cell(1) by simp
  then have "is_on (s ! k) v"
    using shrinks_is_on[OF sh cell(3), of v] assms(4,5) cell(2) by simp
  with assms(6) show False by simp
qed

subsection \<open>Propagation with the tables as the program starts with them\<close>

text \<open>
  With the empty rows of \<open>static_topology\<close> both loops of \<open>eliminate\<close> have nothing
  to visit: the call removes the digit and fails only if the cell is left empty.
\<close>

lemma for_all_Nil: "for_all f [] s = Some (True, s)"
  by simp

lemma eliminate_static:
  assumes "k < 81"
  shows "eliminate (Suc n) static_topology k v s =
     (if \<not> is_on (s ! k) v then Some (True, s)
      else Some (count (s[k := eliminate_bit (s ! k) v] ! k) \<noteq> 0, s[k := eliminate_bit (s ! k) v]))"
proof -
  have nb: "neighbors static_topology ! k = []" "groups_of static_topology ! k = []"
    using assms by (simp_all add: static_topology_def)
  let ?s1 = "s[k := eliminate_bit (s ! k) v]"
  show ?thesis
  proof (cases "is_on (s ! k) v")
    case False
    then show ?thesis by (simp add: eliminate_off)
  next
    case on: True
    consider "count (?s1 ! k) = 0" | "count (?s1 ! k) = 1" | "1 < count (?s1 ! k)"
      by linarith
    then show ?thesis
    proof cases
      case 1
      then show ?thesis using on by (simp add: eliminate_dead)
    next
      case 2
      then show ?thesis using on by (simp add: eliminate_single nb)
    next
      case 3
      then show ?thesis using on by (simp add: eliminate_several nb)
    qed
  qed
qed

lemma is_on_single: "1 \<le> v \<Longrightarrow> v \<le> 9 \<Longrightarrow> 1 \<le> i \<Longrightarrow> i \<le> 9 \<Longrightarrow> is_on (single v) i \<longleftrightarrow> i = v"
  by (auto simp: is_on_def single_def nth_list_update)

lemma length_single: "length (single v) = 9"
  by (simp add: single_def)

lemma count_single: "1 \<le> v \<Longrightarrow> v \<le> 9 \<Longrightarrow> count (single v) = 1"
proof -
  assume v: "1 \<le> v" "v \<le> 9"
  then have lt: "nat (v - 1) < length (single v)" by (simp add: length_single)
  moreover have "single v ! nat (v - 1)" using v by (simp add: single_def)
  ultimately have "Suc (count ((single v)[nat (v - 1) := False])) = count (single v)"
    by (rule count_update_False)
  moreover have "(single v)[nat (v - 1) := False] = replicate 9 False"
    using v by (intro nth_equalityI) (auto simp: single_def nth_list_update)
  moreover have "count (replicate 9 False) = 0" by (simp add: count_def)
  ultimately show ?thesis by simp
qed

lemma val_single: "1 \<le> v \<Longrightarrow> v \<le> 9 \<Longrightarrow> val (single v) = v"
  using count_one_val[of "single v" v] by (simp add: count_single is_on_single length_single)

text \<open>What is left of a cell when every digit of the list but \<open>v\<close> is removed.\<close>

lemma nth_update_False: "j < length c \<Longrightarrow> c[m := False] ! j \<longleftrightarrow> c ! j \<and> m \<noteq> j"
  by (cases "m = j") auto

lemma nth_fold_eliminate_bit:
  "j < length c \<Longrightarrow>
   fold (\<lambda>i c. if i \<noteq> v then eliminate_bit c i else c) is c ! j
     \<longleftrightarrow> c ! j \<and> (\<forall>i \<in> set is. i \<noteq> v \<longrightarrow> nat (i - 1) \<noteq> j)"
proof (induction "is" arbitrary: c)
  case Nil
  then show ?case by simp
next
  case (Cons i "is")
  then show ?case
    by (cases "i = v") (auto simp: eliminate_bit_def nth_update_False)
qed

lemma length_fold_eliminate_bit:
  "length (fold (\<lambda>i c. if i \<noteq> v then eliminate_bit c i else c) is c) = length c"
  by (induction "is" arbitrary: c) (auto simp: eliminate_bit_def)

lemma fold_eliminate_bit_single:
  assumes "length c = 9" "1 \<le> v" "v \<le> 9" "is_on c v"
  shows "fold (\<lambda>i c. if i \<noteq> v then eliminate_bit c i else c) [1..9] c = single v"
proof (rule nth_equalityI)
  show "length (fold (\<lambda>i c. if i \<noteq> v then eliminate_bit c i else c) [1..9] c) = length (single v)"
    using assms(1) by (simp add: length_fold_eliminate_bit length_single)
next
  fix j assume "j < length (fold (\<lambda>i c. if i \<noteq> v then eliminate_bit c i else c) [1..9] c)"
  then have j: "j < 9" using assms(1) by (simp add: length_fold_eliminate_bit)
  have "(\<forall>i \<in> set [1..9]. i \<noteq> v \<longrightarrow> nat (i - 1) \<noteq> j) \<longleftrightarrow> j = nat (v - 1)"
  proof
    assume a: "\<forall>i \<in> set [1..9]. i \<noteq> v \<longrightarrow> nat (i - 1) \<noteq> j"
    show "j = nat (v - 1)"
    proof (rule ccontr)
      assume "j \<noteq> nat (v - 1)"
      then have "int j + 1 \<noteq> v" by auto
      moreover have "int j + 1 \<in> set [1..9]" using j by simp
      ultimately show False using a by fastforce
    qed
  next
    assume "j = nat (v - 1)"
    then show "\<forall>i \<in> set [1..9]. i \<noteq> v \<longrightarrow> nat (i - 1) \<noteq> j" using assms(2) by auto
  qed
  then show "fold (\<lambda>i c. if i \<noteq> v then eliminate_bit c i else c) [1..9] c ! j = single v ! j"
    using j assms by (auto simp: nth_fold_eliminate_bit single_def is_on_def nth_list_update)
qed

lemma assign_loop_static:
  assumes "k < 81" "k < length s" "1 \<le> v" "v \<le> 9"
  shows "length c = 9 \<Longrightarrow> is_on c v \<Longrightarrow> \<forall>i \<in> set is. 1 \<le> i \<and> i \<le> 9 \<Longrightarrow>
     for_all (\<lambda>i s. if i \<noteq> v then eliminate (Suc n) static_topology k i s else Some (True, s)) is
       (s[k := c])
     = Some (True, s[k := fold (\<lambda>i c. if i \<noteq> v then eliminate_bit c i else c) is c])"
proof (induction "is" arbitrary: c)
  case Nil
  then show ?case by simp
next
  case (Cons i "is")
  show ?case
  proof (cases "i = v")
    case True
    then show ?thesis using Cons by simp
  next
    case False
    let ?c = "eliminate_bit c i"
    have i: "1 \<le> i" "i \<le> 9" using Cons.prems(3) by simp_all
    have len: "length ?c = 9" using Cons.prems(1) by (simp add: length_eliminate_bit)
    have on: "is_on ?c v"
      using Cons.prems(1,2) False i assms(3,4)
      by (auto simp: is_on_def eliminate_bit_def nth_update_False)
    then have "0 < count ?c"
      using len assms(3,4) by (auto simp: count_pos_iff is_on_def intro!: exI[of _ "nat (v - 1)"])
    moreover have "?c = c" if "\<not> is_on c i"
      using that i Cons.prems(1) by (simp add: is_on_def eliminate_bit_def list_update_same_conv)
    ultimately have "eliminate (Suc n) static_topology k i (s[k := c]) = Some (True, s[k := ?c])"
      using assms(1,2) by (auto simp: eliminate_static)
    moreover have "for_all (\<lambda>i s. if i \<noteq> v then eliminate (Suc n) static_topology k i s else Some (True, s)) is
        (s[k := ?c])
      = Some (True, s[k := fold (\<lambda>i c. if i \<noteq> v then eliminate_bit c i else c) is ?c])"
      using Cons.IH[OF len on] Cons.prems(3) by simp
    ultimately show ?thesis using False by simp
  qed
qed

text \<open>
  Before \<open>init\<close>, \<open>assign\<close> of a digit that is on at the cell always succeeds: it
  leaves the digit alone in the cell and touches no other cell.
\<close>

lemma assign_static:
  assumes "k < 81" "wf_sudoku s" "1 \<le> v" "v \<le> 9" "is_on (s ! k) v"
  shows "assign (Suc n) static_topology k v s = Some (True, s[k := single v])"
proof -
  have k: "k < length s" and len: "length (s ! k) = 9"
    using assms(1,2) wf_cell by (auto simp: wf_sudoku_def)
  have "for_all (\<lambda>i s. if i \<noteq> v then eliminate (Suc n) static_topology k i s else Some (True, s)) [1..9]
       (s[k := s ! k])
     = Some (True, s[k := fold (\<lambda>i c. if i \<noteq> v then eliminate_bit c i else c) [1..9] (s ! k)])"
    using assms(1) k assms(3,4) len assms(5) by (rule assign_loop_static) simp
  then show ?thesis
    using fold_eliminate_bit_single[OF len assms(3-5)] by (simp add: assign_def assign_with_def)
qed

subsection \<open>The scan of the puzzle string\<close>

lemma blank_not_given: "blank_char c \<Longrightarrow> \<not> given_char c"
  by (auto simp: blank_char_def given_char_def)

lemma scan_given:
  "given_char c \<Longrightarrow> scan A (c # cs) k s =
     (if length s \<le> k then Some (Inl OutOfRange)
      else
        (case A k (digit_of c) s of
           None \<Rightarrow> None
         | Some (False, s') \<Rightarrow> Some (Inr ([''error''], s'))
         | Some (True, s') \<Rightarrow> scan A cs (k + 1) s'))"
  by (simp add: given_char_def digit_of_def)

lemma scan_blank: "blank_char c \<Longrightarrow> scan A (c # cs) k s = scan A cs (k + 1) s"
  using blank_not_given[of c] by (auto simp: given_char_def blank_char_def)

lemma scan_other:
  "\<not> given_char c \<Longrightarrow> \<not> blank_char c \<Longrightarrow> scan A (c # cs) k s = scan A cs k s"
  by (auto simp: given_char_def blank_char_def)

lemma givens_shifted:
  "map (\<lambda>(i, d). (k + i, d)) (givens (c # cs)) =
     (if given_char c then (k, digit_of c) # map (\<lambda>(i, d). (k + 1 + i, d)) (givens cs)
      else if blank_char c then map (\<lambda>(i, d). (k + 1 + i, d)) (givens cs)
      else map (\<lambda>(i, d). (k + i, d)) (givens cs))"
proof -
  have upt: "[0..<length (c # cs)] = 0 # map Suc [0..<length cs]"
    by (simp add: upt_conv_Cons map_Suc_upt del: upt_Suc)
  have idx: "cell_index (c # cs) (Suc i) =
      (if given_char c \<or> blank_char c then Suc (cell_index cs i) else cell_index cs i)" for i
    by (simp add: cell_index_def)
  have "givens (c # cs) =
      (if given_char c then [(0, digit_of c)] else []) @
      map (\<lambda>i. (cell_index (c # cs) (Suc i), digit_of (cs ! i)))
        (filter (\<lambda>i. given_char (cs ! i)) [0..<length cs])"
    unfolding givens_def upt
    by (simp add: filter_map comp_def cell_index_def del: upt_Suc)
  then show ?thesis
    using blank_not_given[of c]
    by (auto simp: givens_def idx comp_def)
qed

text \<open>
  Scanning the puzzle string is assigning its givens in order, each at its
  cell index: a character in \<open>'1'..'9'\<close> is assigned at the current index and advances
  it, \<open>'0'\<close> and \<open>'.'\<close> only advance it, every other character leaves it alone. (An
  index beyond the 81 cells is where the source leaves the vector; a failing
  \<open>assign\<close> ends the scan.)
\<close>

lemma scan_assigns_givens:
  "scan A str k s = assign_givens A (map (\<lambda>(i, d). (k + i, d)) (givens str)) s"
proof (induction str arbitrary: k s)
  case Nil
  then show ?case by (simp add: givens_def)
next
  case (Cons c cs)
  consider "given_char c" | "blank_char c" "\<not> given_char c" | "\<not> given_char c" "\<not> blank_char c"
    by blast
  then show ?case
  proof cases
    case 1
    have "scan A (c # cs) k s =
        (if length s \<le> k then Some (Inl OutOfRange)
         else
           (case A k (digit_of c) s of
              None \<Rightarrow> None
            | Some (False, s') \<Rightarrow> Some (Inr ([''error''], s'))
            | Some (True, s') \<Rightarrow> assign_givens A (map (\<lambda>(i, d). (k + 1 + i, d)) (givens cs)) s'))"
      using 1 by (simp only: scan_given Cons.IH)
    also have "\<dots> = assign_givens A ((k, digit_of c) # map (\<lambda>(i, d). (k + 1 + i, d)) (givens cs)) s"
      by (simp only: assign_givens.simps)
    also have "(k, digit_of c) # map (\<lambda>(i, d). (k + 1 + i, d)) (givens cs)
        = map (\<lambda>(i, d). (k + i, d)) (givens (c # cs))"
      using 1 by (simp only: givens_shifted if_True)
    finally show ?thesis .
  next
    case 2
    have "scan A (c # cs) k s = scan A cs (k + 1) s" using 2(1) by (rule scan_blank)
    also have "\<dots> = assign_givens A (map (\<lambda>(i, d). (k + 1 + i, d)) (givens cs)) s"
      by (rule Cons.IH)
    also have "map (\<lambda>(i, d). (k + 1 + i, d)) (givens cs) = map (\<lambda>(i, d). (k + i, d)) (givens (c # cs))"
      using 2 by (simp only: givens_shifted if_True if_False)
    finally show ?thesis .
  next
    case 3
    have "scan A (c # cs) k s = scan A cs k s" using 3 by (rule scan_other)
    also have "\<dots> = assign_givens A (map (\<lambda>(i, d). (k + i, d)) (givens cs)) s"
      by (rule Cons.IH)
    also have "map (\<lambda>(i, d). (k + i, d)) (givens cs) = map (\<lambda>(i, d). (k + i, d)) (givens (c # cs))"
      using 3 by (simp only: givens_shifted if_False)
    finally show ?thesis .
  qed
qed

text \<open>
  Claim C8 for the constructor: building a board from a puzzle string is assigning the
  givens of the string, in order and each at its cell index, to the fresh board.
\<close>

theorem construction_assigns_givens:
  "Sudoku n T str = assign_givens (assign n T) (givens str) (replicate 81 Possible)"
  using scan_assigns_givens[of "assign n T" str 0 "replicate 81 Possible"]
  by (simp add: Sudoku_def)

theorem construction_assigns_givens_witness:
  "givens ''4 .x07'' = [(0, 4), (3, 7)] \<and>
   Sudoku 1 static_topology ''4 .x07'' =
     Some (Inr ([], (replicate 81 Possible)[0 := single 4, 3 := single 7]))"
proof -
  have g: "givens ''4 .x07'' = [(0, 4), (3, 7)]"
    by (simp add: givens_def cell_index_def given_char_def blank_char_def digit_of_def upt_rec)
  have 1: "assign (Suc 0) static_topology 0 4 (replicate 81 Possible)
      = Some (True, (replicate 81 Possible)[0 := single 4])"
    by (rule assign_static) (simp_all add: wf_fresh is_on_Possible)
  have 2: "assign (Suc 0) static_topology 3 7 ((replicate 81 Possible)[0 := single 4])
      = Some (True, (replicate 81 Possible)[0 := single 4, 3 := single 7])"
    by (rule assign_static) (simp_all add: wf_fresh wf_update length_single is_on_Possible)
  show ?thesis
    using construction_assigns_givens[of 1 static_topology "''4 .x07''"] g 1 2 by simp
qed

subsection \<open>Search: what solve returns\<close>

lemma try_digits_solved:
  assumes "try_digits R A k p is s = Some (Inr (Some s'))"
    and "\<And>t t'. R (Some t) = Some (Inr (Some t')) \<Longrightarrow> is_solved t'"
  shows "is_solved s'"
  using assms(1)
proof (induction "is")
  case Nil
  then show ?case by simp
next
  case (Cons i "is")
  then show ?case
    using assms(2)
    by (auto split: if_splits option.splits bool.splits sum.splits)
qed

text \<open>A board that \<open>solve\<close> returns is solved.\<close>

lemma solve_returns_solved: "solve n T S = Some (Inr (Some s')) \<Longrightarrow> is_solved s'"
proof (induction n arbitrary: S s')
  case 0
  then show ?case by simp
next
  case (Suc n)
  then show ?case
    by (auto simp: Let_def split: option.splits if_splits dest: try_digits_solved)
qed

text \<open>
  An unsolved board on which no cell has more than one candidate has an empty cell.
  \<open>least_count\<close> returns \<open>-1\<close> on it, and \<open>solve\<close> uses that as an index of
  \<open>_cells\<close>.
\<close>

lemma solve_no_choice:
  assumes "\<not> is_solved s" "\<forall>i < length s. count (s ! i) \<le> 1"
  shows "solve (Suc n) T (Some s) = Some (Inl OutOfRange)"
proof -
  have "least_count s = - 1" using assms(2) least_count_cases[of s] by blast
  then show ?thesis using assms(1) by simp
qed

subsection \<open>Search with the tables as the program starts with them\<close>

lemma try_digits_skip:
  "\<forall>i \<in> set pre. \<not> is_on p i \<Longrightarrow> try_digits R A k p (pre @ rest) s = try_digits R A k p rest s"
  by (induction pre) auto

lemma single_val:
  assumes "length c = 9" "count c = 1"
  shows "single (val c) = c"
proof (rule nth_equalityI)
  show "length (single (val c)) = length c" using assms(1) by (simp add: length_single)
next
  fix j assume "j < length (single (val c))"
  then have j: "j < 9" by (simp add: length_single)
  have pos: "0 < count c" using assms(2) by simp
  have v: "1 \<le> val c" "val c \<le> 9" "is_on c (val c)"
    using val_first[OF pos] assms(1) by simp_all
  have "c ! j \<longleftrightarrow> j = nat (val c - 1)"
  proof
    assume "c ! j"
    then have "is_on c (int j + 1)" by (simp add: is_on_def)
    then have "val c = int j + 1" using count_one_val[OF assms(2), of "int j + 1"] j assms(1) by simp
    then show "j = nat (val c - 1)" by simp
  next
    assume "j = nat (val c - 1)"
    then show "c ! j" using v(3) by (simp add: is_on_def)
  qed
  then show "single (val c) ! j = c ! j"
    using j v by (auto simp: single_def nth_list_update)
qed

lemma total_count_less:
  "k < length s \<Longrightarrow> count c < count (s ! k) \<Longrightarrow> total_count (s[k := c]) < total_count s"
proof (induction s arbitrary: k)
  case Nil
  then show ?case by simp
next
  case (Cons a s)
  show ?case
  proof (cases k)
    case 0
    with Cons.prems show ?thesis by (simp add: total_count_def)
  next
    case (Suc j)
    with Cons.prems have "total_count (s[j := c]) < total_count s" using Cons.IH[of j] by simp
    with Suc show ?thesis by (simp add: total_count_def)
  qed
qed

text \<open>
  Before \<open>init\<close> nothing constrains the search: on a board without an empty cell,
  \<open>solve\<close> returns the board on which every cell holds the least of its candidates.
\<close>

lemma solve_static:
  "wf_sudoku s \<Longrightarrow> \<forall>c < 81. 0 < count (s ! c) \<Longrightarrow> total_count s < n \<Longrightarrow>
   solve n static_topology (Some s) = Some (Inr (Some (map (\<lambda>c. single (val c)) s)))"
proof (induction n arbitrary: s)
  case 0
  then show ?case by simp
next
  case (Suc n)
  note wf = Suc.prems(1) and pos = Suc.prems(2)
  have len: "length s = 81" using wf by (simp add: wf_sudoku_def)
  show ?case
  proof (cases "is_solved s")
    case True
    have "map (\<lambda>c. single (val c)) s = map (\<lambda>c. c) s"
    proof (rule map_cong[OF refl])
      fix c assume "c \<in> set s"
      then have "length c = 9" "count c = 1"
        using wf True by (auto simp: wf_sudoku_def is_solved_def list_all_iff)
      then show "single (val c) = c" by (rule single_val)
    qed
    then show ?thesis using True by simp
  next
    case False
    then obtain c where "c < 81" "count (s ! c) \<noteq> 1"
      using len by (auto simp: is_solved_def list_all_length)
    moreover from this have "0 < count (s ! c)" using pos by simp
    ultimately have "1 < count (s ! c)" by linarith
    then have "\<not> (\<forall>i < length s. count (s ! i) \<le> 1)" using \<open>c < 81\<close> len by (auto simp: not_le)
    then have k: "least_count s \<noteq> - 1" "0 \<le> least_count s" "nat (least_count s) < length s"
        "1 < count (s ! nat (least_count s))"
      using least_count_cases[of s] by blast+
    let ?k = "nat (least_count s)"
    let ?p = "s ! ?k"
    let ?w = "val ?p"
    have k81: "?k < 81" using k(3) len by simp
    have cell: "length ?p = 9" using wf k81 by (rule wf_cell)
    have w: "1 \<le> ?w" "?w \<le> 9" "is_on ?p ?w"
      using val_first[of ?p] k(4) cell by simp_all
    have before: "\<forall>i \<in> set [1..?w - 1]. \<not> is_on ?p i" using val_least[of _ ?p] by auto
    have split: "[1..9] = [1..?w - 1] @ ?w # [?w + 1..9]"
      using w by (intro upto_split3) simp_all
    obtain m where n: "n = Suc m"
    proof (cases n)
      case 0
      have "count ?p \<in> set (map count s)" using k(3) by simp
      then have "count ?p \<le> total_count s"
        unfolding total_count_def by (intro member_le_sum_list) auto
      with 0 Suc.prems(3) k(4) show ?thesis by simp
    next
      case (Suc m)
      then show ?thesis using that by simp
    qed
    let ?s1 = "s[?k := single ?w]"
    have a: "assign n static_topology ?k ?w s = Some (True, ?s1)"
      unfolding n using k81 wf w by (rule assign_static)
    have wf1: "wf_sudoku ?s1" using wf by (simp add: wf_update length_single)
    have pos1: "\<forall>c < 81. 0 < count (?s1 ! c)"
    proof (intro allI impI)
      fix c :: nat assume "c < 81"
      then show "0 < count (?s1 ! c)"
        using pos w len by (cases "c = ?k") (simp_all add: count_single)
    qed
    have "total_count ?s1 < total_count s"
      using k(3,4) w by (intro total_count_less) (simp_all add: count_single)
    then have lt: "total_count ?s1 < n" using Suc.prems(3) by simp
    have "map (\<lambda>c. single (val c)) ?s1 = map (\<lambda>c. single (val c)) s"
      using w k(3) by (simp add: map_update val_single list_update_same_conv)
    then have r: "solve n static_topology (Some ?s1) = Some (Inr (Some (map (\<lambda>c. single (val c)) s)))"
      using Suc.IH[OF wf1 pos1 lt] by simp
    have "try_digits (solve n static_topology) (assign n static_topology) ?k ?p [1..9] s
        = try_digits (solve n static_topology) (assign n static_topology) ?k ?p (?w # [?w + 1..9]) s"
      using try_digits_skip[OF before] by (simp only: split)
    also have "\<dots> = Some (Inr (Some (map (\<lambda>c. single (val c)) s)))"
      using w(3) a r by simp
    finally show ?thesis using False k(2,3) by (simp add: Let_def)
  qed
qed

lemma scan_blanks: "scan A (replicate m CHR ''.'') k s = Some (Inr ([], s))"
  by (induction m arbitrary: k) simp_all

lemma val_Possible: "val Possible = 1"
  by (simp add: val_def Possible_def)

lemma is_solved_singles: "is_solved (replicate m (single 1))"
  by (simp add: is_solved_def list_all_iff count_single)

lemma first_row: "group (init static_topology) ! 0 = [0, 1, 2, 3, 4, 5, 6, 7, 8]"
  by (simp add: init_tables init_groups_static)

lemma ones_not_valid: "\<not> each_digit_once (replicate 81 (single 1))"
proof
  assume "each_digit_once (replicate 81 (single 1))"
  then have "\<exists>!p. p \<in> set (group (init static_topology) ! 0) \<and> is_on (replicate 81 (single 1) ! p) 1"
    by (simp add: each_digit_once_def)
  moreover have "0 \<in> set (group (init static_topology) ! 0) \<and> is_on (replicate 81 (single 1) ! 0) 1"
    "1 \<in> set (group (init static_topology) ! 0) \<and> is_on (replicate 81 (single 1) ! 1) 1"
    by (simp_all add: first_row is_on_single)
  ultimately have "(0::nat) = 1" by blast
  then show False by simp
qed

text \<open>
  Claim C1 at the empty grid, with the tables as the program has them: \<open>main\<close> never
  calls \<open>Sudoku::init\<close>, so every row of the three tables is empty. The board built
  from 81 blanks is the fresh board; \<open>solve\<close> returns a board on which every cell
  holds the digit 1, which is solved (every count is 1) and holds the digit 1 nine times
  in every row, column and box.
\<close>

theorem solve_before_init:
  "Sudoku 730 static_topology (replicate 81 CHR ''.'') = Some (Inr ([], replicate 81 Possible)) \<and>
   solve 730 static_topology (Some (replicate 81 Possible))
     = Some (Inr (Some (replicate 81 (single 1)))) \<and>
   solve_line 730 (replicate 81 CHR ''.'') = Some (Inr (Some (replicate 81 (single 1)))) \<and>
   is_solved (replicate 81 (single 1)) \<and>
   \<not> each_digit_once (replicate 81 (single 1))"
proof -
  have "solve 730 static_topology (Some (replicate 81 Possible))
      = Some (Inr (Some (map (\<lambda>c. single (val c)) (replicate 81 Possible))))"
    by (rule solve_static) (simp_all add: wf_fresh count_Possible total_fresh)
  then show ?thesis
    by (simp add: solve_line_def Sudoku_def scan_blanks val_Possible is_solved_singles
        ones_not_valid)
qed

text \<open>Cells 0 and 1, both of the first row, hold the digit 1 on the returned board.\<close>

theorem solve_before_init_witness:
  "solve_line 730 (replicate 81 CHR ''.'') = Some (Inr (Some (replicate 81 (single 1)))) \<and>
   group (init static_topology) ! 0 = [0, 1, 2, 3, 4, 5, 6, 7, 8] \<and>
   is_on (replicate 81 (single 1) ! 0) 1 \<and> is_on (replicate 81 (single 1) ! 1) 1"
  using solve_before_init by (simp add: first_row is_on_single)

lemma digits_1_9: "[1..9] = [1, 2, 3, 4, 5, 6, 7, 8, 9::int]"
  by (simp add: upto_rec1)

lemma assign_static_1:
  "k < 81 \<Longrightarrow> wf_sudoku s \<Longrightarrow> 1 \<le> v \<Longrightarrow> v \<le> 9 \<Longrightarrow> is_on (s ! k) v \<Longrightarrow>
   assign 1 static_topology k v s = Some (True, s[k := single v])"
  using assign_static[of k s v 0] by simp

text \<open>
  Claim C9 at two equal givens in one row, with the tables as the program has them. The
  line starts with \<open>11\<close>: cells 0 and 1 of the first row are both given the digit 1.
  No \<open>assign\<close> fails, nothing is written to \<open>cerr\<close>, and the constructor returns
  a board on which both cells hold the digit 1.
\<close>

theorem conflicting_givens_accepted:
  "Sudoku 1 static_topology (''11'' @ replicate 79 CHR ''.'')
     = Some (Inr ([], (replicate 81 Possible)[0 := single 1, 1 := single 1])) \<and>
   group (init static_topology) ! 0 = [0, 1, 2, 3, 4, 5, 6, 7, 8]"
proof -
  have 1: "assign 1 static_topology 0 1 (replicate 81 Possible)
      = Some (True, (replicate 81 Possible)[0 := single 1])"
    by (rule assign_static_1) (simp_all add: wf_fresh is_on_Possible)
  have 2: "assign 1 static_topology 1 1 ((replicate 81 Possible)[0 := single 1])
      = Some (True, (replicate 81 Possible)[0 := single 1, 1 := single 1])"
    by (rule assign_static_1) (simp_all add: wf_fresh wf_update length_single is_on_Possible)
  show ?thesis
    using 1 2 by (simp add: Sudoku_def scan_blanks first_row)
qed

text \<open>A construction from givens only, before \<open>init\<close>: every given is taken as it is.\<close>

lemma wf_prefix: "k \<le> 81 \<Longrightarrow> wf_sudoku (replicate k (single v) @ replicate (81 - k) Possible)"
  by (auto simp: wf_sudoku_def list_all_iff length_single Possible_def)

lemma scan_ones_static:
  "k + m \<le> 81 \<Longrightarrow>
   scan (assign 1 static_topology) (replicate m CHR ''1'') k
     (replicate k (single 1) @ replicate (81 - k) Possible)
   = Some (Inr ([], replicate (k + m) (single 1) @ replicate (81 - (k + m)) Possible))"
proof (induction m arbitrary: k)
  case 0
  then show ?case by simp
next
  case (Suc m)
  let ?s = "replicate k (single 1) @ replicate (81 - k) Possible"
  have k: "k < 81" using Suc.prems by simp
  then have cell: "?s ! k = Possible" by (simp add: nth_append)
  have "assign 1 static_topology k 1 ?s = Some (True, ?s[k := single 1])"
    using k by (intro assign_static_1) (simp_all add: wf_prefix cell is_on_Possible)
  moreover have "?s[k := single 1] = replicate (Suc k) (single 1) @ replicate (81 - Suc k) Possible"
  proof -
    have "replicate (81 - k) Possible = Possible # replicate (81 - Suc k) Possible"
      using k by (simp add: replicate_Suc[symmetric] Suc_diff_Suc del: replicate_Suc)
    then show ?thesis by (simp add: list_update_append replicate_append_same)
  qed
  ultimately show ?case
    using Suc.IH[of "Suc k"] Suc.prems k by simp
qed

text \<open>
  A board with an empty cell and no cell left to branch on, which no caller in the
  program passes to \<open>solve\<close>: it is what the public interface leaves after the
  construction from 81 givens and one further \<open>assign\<close> of another digit at cell 0,
  whose \<open>false\<close> is ignored. The board is not solved, \<open>least_count\<close> returns
  \<open>-1\<close>, and \<open>solve\<close> reads \<open>_cells[-1]\<close>.
\<close>

lemma solve_without_choice:
  "Sudoku 1 static_topology (replicate 81 CHR ''1'') = Some (Inr ([], replicate 81 (single 1))) \<and>
   assign 1 static_topology 0 2 (replicate 81 (single 1))
     = Some (False, (replicate 81 (single 1))[0 := replicate 9 False]) \<and>
   least_count ((replicate 81 (single 1))[0 := replicate 9 False]) = - 1 \<and>
   solve 1 static_topology (Some ((replicate 81 (single 1))[0 := replicate 9 False]))
     = Some (Inl OutOfRange) \<and>
   solve 1 (init static_topology) (Some ((replicate 81 (single 1))[0 := replicate 9 False]))
     = Some (Inl OutOfRange)"
proof -
  let ?s = "(replicate 81 (single 1))[0 := replicate 9 False]"
  have c: "Sudoku 1 static_topology (replicate 81 CHR ''1'') = Some (Inr ([], replicate 81 (single 1)))"
    using scan_ones_static[of 0 81] by (simp add: Sudoku_def)
  have e: "eliminate_bit (single 1) 1 = replicate 9 False"
    by (simp add: single_def eliminate_bit_def list_update_same_conv)
  have a: "assign 1 static_topology 0 2 (replicate 81 (single 1)) = Some (False, ?s)"
    using eliminate_static[of 0 0 1 "replicate 81 (single 1)"]
    by (simp add: assign_def assign_with_def digits_1_9 is_on_single e count_def)
  have z: "count (replicate 9 False) = 0" by (simp add: count_def)
  have le: "\<forall>i < length ?s. count (?s ! i) \<le> 1"
  proof (intro allI impI)
    fix i assume "i < length ?s"
    then show "count (?s ! i) \<le> 1" by (cases "i = 0") (simp_all add: count_single z)
  qed
  have ns: "\<not> is_solved ?s"
    using z by (auto simp: is_solved_def list_all_length intro!: exI[of _ 0])
  have l: "least_count ?s = - 1" using le least_count_cases[of ?s] by blast
  have "solve (Suc 0) T (Some ?s) = Some (Inl OutOfRange)" for T
    using ns le by (rule solve_no_choice)
  then show ?thesis using c a l by simp
qed

text \<open>
  Claim C7 as stated fails where the first call fails. On the board that the
  construction from the puzzle \<open>1\<close> leaves (cell 0 holds the digit 1 alone),
  \<open>eliminate(0, 1)\<close>, as \<open>assign(0, 2)\<close> calls it first, empties the cell and
  returns \<open>False\<close>; the second call finds the digit off and returns \<open>True\<close>.
\<close>

theorem eliminate_twice_counterexample:
  "Sudoku 1 static_topology ''1'' = Some (Inr ([], (replicate 81 Possible)[0 := single 1])) \<and>
   eliminate 1 static_topology 0 1 ((replicate 81 Possible)[0 := single 1])
     = Some (False, (replicate 81 Possible)[0 := replicate 9 False]) \<and>
   eliminate 1 static_topology 0 1 ((replicate 81 Possible)[0 := replicate 9 False])
     = Some (True, (replicate 81 Possible)[0 := replicate 9 False])"
proof -
  have 1: "assign 1 static_topology 0 1 (replicate 81 Possible)
      = Some (True, (replicate 81 Possible)[0 := single 1])"
    by (rule assign_static_1) (simp_all add: wf_fresh is_on_Possible)
  have e: "eliminate_bit (single 1) 1 = replicate 9 False"
    by (simp add: single_def eliminate_bit_def list_update_same_conv)
  have z: "count (replicate 9 False) = 0" "\<not> is_on (replicate 9 False) 1"
    by (simp_all add: count_def is_on_def)
  show ?thesis
    using 1 eliminate_static[of 0 0 1 "(replicate 81 Possible)[0 := single 1]"]
      eliminate_static[of 0 0 1 "(replicate 81 Possible)[0 := replicate 9 False]"]
    by (simp add: Sudoku_def is_on_single e z)
qed

subsection \<open>The tables of cell 0 after init\<close>

lemma groups_of_0: "groups_of (init static_topology) ! 0 = [0, 9, 18]"
  by (simp add: init_tables init_groups_static)

lemma groups_at_0:
  "group (init static_topology) ! 9 = [0, 9, 18, 27, 36, 45, 54, 63, 72]"
  "group (init static_topology) ! 18 = [0, 1, 2, 9, 10, 11, 18, 19, 20]"
  by (simp_all add: init_tables init_groups_static)

lemma neighbors_0:
  "neighbors (init static_topology) ! 0 =
     [1, 2, 3, 4, 5, 6, 7, 8, 9, 18, 27, 36, 45, 54, 63, 72, 1, 2, 9, 10, 11, 18, 19, 20]"
  by (simp add: neighbors_init groups_of_0 first_row groups_at_0)

subsection \<open>With the tables built: boards that solve returns are valid grids\<close>

lemma try_digits_found:
  assumes "try_digits R A k p is s = Some (Inr (Some s'))"
  shows "\<exists>i s1. i \<in> set is \<and> is_on p i \<and> A k i s = Some (True, s1) \<and> R (Some s1) = Some (Inr (Some s'))"
  using assms
proof (induction "is")
  case Nil
  then show ?case by simp
next
  case (Cons i "is")
  then show ?case
    by (fastforce split: if_splits option.splits bool.splits sum.splits)
qed

text \<open>
  The search keeps what the propagation keeps: from a well-formed board whose cells are
  all pruned, a board that \<open>solve\<close> returns is well formed, solved, and all pruned.
\<close>

lemma solve_keeps_pruned:
  assumes T: "wf_topology T"
  shows "wf_sudoku s \<Longrightarrow> \<forall>c < 81. pruned T s c \<Longrightarrow> solve n T (Some s) = Some (Inr (Some s'))
         \<Longrightarrow> wf_sudoku s' \<and> (\<forall>c < 81. pruned T s' c) \<and> is_solved s'"
proof (induction n arbitrary: s s')
  case 0
  then show ?case by simp
next
  case (Suc n)
  show ?case
  proof (cases "is_solved s")
    case True
    with Suc.prems show ?thesis by simp
  next
    case False
    let ?k = "nat (least_count s)"
    have len: "length s = 81" using Suc.prems(1) by (simp add: wf_sudoku_def)
    from Suc.prems(3) False have k: "0 \<le> least_count s" "?k < 81"
      and run: "try_digits (solve n T) (assign n T) ?k (s ! ?k) [1..9] s = Some (Inr (Some s'))"
      using len by (auto simp: Let_def split: if_splits)
    from try_digits_found[OF run] obtain i s1 where
      a: "assign n T ?k i s = Some (True, s1)" and r: "solve n T (Some s1) = Some (Inr (Some s'))"
      by blast
    have P: "propagates T s s1" using T Suc.prems(1) k(2) a by (rule assign_propagates)
    then have "wf_sudoku s1" using Suc.prems(1) propagates_shrinks shrinks_wf by blast
    moreover have "\<forall>c < 81. pruned T s1 c" using P Suc.prems(2) len by (simp add: propagates_def)
    ultimately show ?thesis using r by (rule Suc.IH)
  qed
qed

lemma group_shape:
  assumes "x < 27"
  shows "length (group (init static_topology) ! x) = 9"
    "\<forall>p \<in> set (group (init static_topology) ! x). p < 81"
proof -
  have "list_all (\<lambda>x. length (group (init_groups static_topology) ! x) = 9 \<and>
      list_all (\<lambda>p. p < 81) (group (init_groups static_topology) ! x)) [0..<27]"
    by (simp add: init_groups_static upt_rec)
  then show "length (group (init static_topology) ! x) = 9"
    "\<forall>p \<in> set (group (init static_topology) ! x). p < 81"
    using assms by (auto simp: init_tables list_all_iff)
qed

text \<open>
  On a solved board whose cells are all pruned, the nine cells of a group hold nine
  different digits, so each digit once.
\<close>

lemma pruned_solved_valid:
  assumes wf: "wf_sudoku s" and solved: "is_solved s"
    and pruned: "\<forall>c < 81. pruned (init static_topology) s c"
  shows "each_digit_once s"
  unfolding each_digit_once_def
proof (intro allI impI ballI)
  fix x :: nat and d :: int
  assume x: "x < 27" and d: "d \<in> {1..9}"
  let ?T = "init static_topology"
  let ?g = "group ?T ! x"
  let ?f = "\<lambda>p. val (s ! p)"
  have g: "length ?g = 9" "distinct ?g" "\<forall>p \<in> set ?g. p < 81"
    using group_shape[OF x] group_init(1)[OF x] by simp_all
  have cell: "count (s ! p) = 1" "length (s ! p) = 9" if "p \<in> set ?g" for p
    using that g(3) wf solved by (auto simp: wf_sudoku_def is_solved_def list_all_length)
  have on: "is_on (s ! p) i \<longleftrightarrow> i = ?f p" if "p \<in> set ?g" "1 \<le> i" "i \<le> 9" for p i
  proof
    assume "is_on (s ! p) i"
    then show "i = ?f p" using count_one_val[of "s ! p" i] cell[OF that(1)] that(2,3) by simp
  next
    assume "i = ?f p"
    then show "is_on (s ! p) i" using val_first(3)[of "s ! p"] cell(1)[OF that(1)] by simp
  qed
  have range: "1 \<le> ?f p \<and> ?f p \<le> 9" if "p \<in> set ?g" for p
    using val_first(1,2)[of "s ! p"] cell[OF that] by simp
  have inj: "inj_on ?f (set ?g)"
  proof (rule inj_onI)
    fix p q assume p: "p \<in> set ?g" and q: "q \<in> set ?g" and eq: "?f p = ?f q"
    show "p = q"
    proof (rule ccontr)
      assume "p \<noteq> q"
      then have "q \<in> set (neighbors ?T ! p)" using group_mates[OF x p q] by simp
      moreover have "pruned ?T s p" using pruned g(3) p by simp
      ultimately have "\<not> is_on (s ! q) (?f p)" using cell(1)[OF p] by (simp add: pruned_def)
      then show False using on[OF q, of "?f q"] range[OF q] eq by simp
    qed
  qed
  have "?f ` set ?g \<subseteq> {1..9}" using range by auto
  moreover have "card (?f ` set ?g) = card {1..9::int}"
    using inj g(1,2) by (simp add: card_image distinct_card)
  ultimately have img: "?f ` set ?g = {1..9}" by (intro card_subset_eq) simp_all
  then obtain p where p: "p \<in> set ?g" "?f p = d" using d by (metis imageE)
  show "\<exists>!p. p \<in> set ?g \<and> is_on (s ! p) d"
  proof (intro ex1I[of _ p] conjI)
    show "p \<in> set ?g" by (rule p(1))
    show "is_on (s ! p) d" using on[OF p(1), of d] p(2) d by simp
  next
    fix q assume q: "q \<in> set ?g \<and> is_on (s ! q) d"
    then have "?f q = d" using on[of q d] d by simp
    then show "q = p" using inj p q by (auto dest: inj_onD)
  qed
qed

subsection \<open>Construction with tables that stay inside the board\<close>

lemma assign_givens_log:
  "assign_givens A gs s = Some (Inr (log, s')) \<Longrightarrow> log = [] \<or> log = [''error'']"
proof (induction gs arbitrary: s)
  case Nil
  then show ?case by simp
next
  case (Cons g gs)
  obtain k d where g: "g = (k, d)" by (cases g)
  from Cons.prems show ?case
    unfolding g using Cons.IH
    by (auto split: if_splits option.splits bool.splits)
qed

lemma assign_givens_append:
  "assign_givens A (xs @ ys) s = Some (Inr ([], s')) \<Longrightarrow>
   \<exists>t. assign_givens A xs s = Some (Inr ([], t)) \<and> assign_givens A ys t = Some (Inr ([], s'))"
proof (induction xs arbitrary: s)
  case Nil
  then show ?case by simp
next
  case (Cons g xs)
  obtain k d where g: "g = (k, d)" by (cases g)
  from Cons.prems show ?case
    unfolding g using Cons.IH
    by (auto split: if_splits option.splits bool.splits)
qed

lemma assign_givens_propagates:
  assumes T: "wf_topology T"
  shows "wf_sudoku s \<Longrightarrow> assign_givens (assign n T) gs s = Some (Inr ([], s')) \<Longrightarrow> propagates T s s'"
proof (induction gs arbitrary: s)
  case Nil
  then show ?case by (simp add: propagates_refl)
next
  case (Cons g gs)
  obtain k d where g: "g = (k, d)" by (cases g)
  have len: "length s = 81" using Cons.prems(1) by (simp add: wf_sudoku_def)
  from Cons.prems(2) obtain t where k: "k < 81" and a: "assign n T k d s = Some (True, t)"
    and rest: "assign_givens (assign n T) gs t = Some (Inr ([], s'))"
    unfolding g using len by (auto split: if_splits option.splits bool.splits)
  have P: "propagates T s t" using T Cons.prems(1) k a by (rule assign_propagates)
  then have "wf_sudoku t" using Cons.prems(1) propagates_shrinks shrinks_wf by blast
  then have "propagates T t s'" using rest by (rule Cons.IH)
  with P show ?case by (rule propagates_trans)
qed

text \<open>
  A board built without a failure, and every board the search reaches from it, is well
  formed, has no empty cell, and every cell of it is pruned.
\<close>

lemma construction_pruned:
  assumes "wf_topology T" "Sudoku n T str = Some (Inr ([], s))"
  shows "wf_sudoku s \<and> (\<forall>c < 81. 0 < count (s ! c) \<and> pruned T s c)"
proof -
  have "assign_givens (assign n T) (givens str) (replicate 81 Possible) = Some (Inr ([], s))"
    using assms(2) scan_assigns_givens[of "assign n T" str 0 "replicate 81 Possible"]
    by (simp add: Sudoku_def)
  then have P: "propagates T (replicate 81 Possible) s"
    using assms(1) wf_fresh by (intro assign_givens_propagates)
  have "pruned T (replicate 81 Possible) c" if "c < 81" for c
    using that by (simp add: pruned_def count_Possible)
  then show ?thesis
    using P wf_fresh propagates_shrinks[OF P] shrinks_wf
    by (auto simp: propagates_def count_Possible)
qed

text \<open>
  Once the tables are built, a board that \<open>solve\<close> returns for a
  puzzle whose construction did not fail is solved and holds each digit once in each of
  the 27 groups.
\<close>

lemma solve_valid_after_init:
  assumes "Sudoku n (init static_topology) str = Some (Inr ([], s))"
    and "solve m (init static_topology) (Some s) = Some (Inr (Some s'))"
  shows "is_solved s' \<and> each_digit_once s'"
proof -
  have s: "wf_sudoku s" "\<forall>c < 81. pruned (init static_topology) s c"
    using construction_pruned[OF wf_init assms(1)] by simp_all
  have "wf_sudoku s' \<and> (\<forall>c < 81. pruned (init static_topology) s' c) \<and> is_solved s'"
    using wf_init s assms(2) by (rule solve_keeps_pruned)
  then show ?thesis using pruned_solved_valid by blast
qed

text \<open>
  With tables that make the two cells neighbours, when a puzzle gives the same digit to
  a cell and, later, to one of its neighbours, the construction ends with the line
  \<open>error\<close> written.
\<close>

lemma conflict_detected:
  assumes T: "wf_topology T"
    and g: "givens str = pre @ (a, d) # mid @ (b, d) # post"
    and nb: "b \<in> set (neighbors T ! a)" and d: "1 \<le> d" "d \<le> 9"
    and c: "Sudoku n T str = Some (Inr (log, s))"
  shows "log = [''error'']"
proof (rule ccontr)
  assume "log \<noteq> [''error'']"
  let ?A = "assign n T"
  let ?s0 = "replicate 81 Possible"
  have run: "assign_givens ?A (givens str) ?s0 = Some (Inr (log, s))"
    using c scan_assigns_givens[of ?A str 0 ?s0] by (simp add: Sudoku_def)
  then have "log = []" using assign_givens_log \<open>log \<noteq> [''error'']\<close> by blast
  with run g have "assign_givens ?A (pre @ (a, d) # mid @ (b, d) # post) ?s0 = Some (Inr ([], s))"
    by simp
  then obtain t1 where 1: "assign_givens ?A pre ?s0 = Some (Inr ([], t1))"
    and r1: "assign_givens ?A ((a, d) # mid @ (b, d) # post) t1 = Some (Inr ([], s))"
    using assign_givens_append by blast
  have P1: "propagates T ?s0 t1" using T wf_fresh 1 by (rule assign_givens_propagates)
  have wf1: "wf_sudoku t1" using P1 wf_fresh propagates_shrinks shrinks_wf by blast
  have len1: "length t1 = 81" using wf1 by (simp add: wf_sudoku_def)
  have good1: "0 < count (t1 ! c) \<and> pruned T t1 c" if "c < 81" for c
    using P1 that by (simp add: propagates_def count_Possible pruned_def)
  from r1 obtain t2 where a: "a < 81" and aa: "?A a d t1 = Some (True, t2)"
    and r2: "assign_givens ?A (mid @ (b, d) # post) t2 = Some (Inr ([], s))"
    using len1 by (auto split: if_splits option.splits bool.splits)
  have on: "is_on (t1 ! a) d"
    using assign_off_fails[OF T wf1 a d _ _ aa] good1[OF a] by auto
  have single: "count (t2 ! a) = 1" "val (t2 ! a) = d"
    using assign_leaves_single[OF T wf1 a d on aa] by simp_all
  have P2: "propagates T t1 t2" using T wf1 a aa by (rule assign_propagates)
  have wf2: "wf_sudoku t2" using P2 wf1 propagates_shrinks shrinks_wf by blast
  from r2 obtain t3 where 3: "assign_givens ?A mid t2 = Some (Inr ([], t3))"
    and r3: "assign_givens ?A ((b, d) # post) t3 = Some (Inr ([], s))"
    using assign_givens_append by blast
  have P3: "propagates T t2 t3" using T wf2 3 by (rule assign_givens_propagates)
  have wf3: "wf_sudoku t3" using P3 wf2 propagates_shrinks shrinks_wf by blast
  have len: "length t2 = 81" "length t3 = 81" using wf2 wf3 by (simp_all add: wf_sudoku_def)
  have P13: "propagates T t1 t3" using P2 P3 by (rule propagates_trans)
  have pos3: "0 < count (t3 ! a)" using P3 single(1) a len by (simp add: propagates_def)
  have sh3: "shrinks t2 t3" using P3 by (rule propagates_shrinks)
  have "count (t3 ! a) \<le> count (t2 ! a)" using sh3 a len by (intro shrinks_count) simp_all
  then have "count (t2 ! a) \<le> count (t3 ! a)" using pos3 single(1) by simp
  moreover have "length (t3 ! a) = length (t2 ! a)" "\<forall>i < length (t2 ! a). t3 ! a ! i \<longrightarrow> t2 ! a ! i"
    using sh3 a len by (auto simp: shrinks_def)
  ultimately have same: "t3 ! a = t2 ! a" by (intro count_eq_same) auto
  have "pruned T t3 a" using P13 good1[OF a] a len1 by (simp add: propagates_def)
  then have off: "\<not> is_on (t3 ! b) d" using nb single by (simp add: pruned_def same)
  from r3 obtain t4 where b: "b < 81" and bb: "?A b d t3 = Some (True, t4)"
    using len by (auto split: if_splits option.splits bool.splits)
  have "0 < count (t3 ! b)" using P13 good1[OF b] b len1 by (simp add: propagates_def)
  then show False using assign_off_fails[OF T wf3 b d off _ bb] by simp
qed

subsection \<open>The search, step by step\<close>

lemma solve_none: "solve (Suc n) T None = Some (Inr None)"
  by simp

lemma solve_solved: "is_solved s \<Longrightarrow> solve (Suc n) T (Some s) = Some (Inr (Some s))"
  by simp

lemma solve_branch:
  assumes "\<not> is_solved s" "\<exists>i < length s. 1 < count (s ! i)"
  shows "solve (Suc n) T (Some s) =
     try_digits (solve n T) (assign n T) (nat (least_count s)) (s ! nat (least_count s)) [1..9] s"
proof -
  have "\<not> (\<forall>i < length s. count (s ! i) \<le> 1)" using assms(2) by (auto simp: not_le)
  then have "0 \<le> least_count s" "nat (least_count s) < length s"
    using least_count_cases[of s] by blast+
  then show ?thesis using assms(1) by (simp add: Let_def)
qed

text \<open>
  The loop over the digits returns the board of the first candidate digit, in the order
  \<open>1..9\<close>, whose \<open>assign\<close> succeeds and whose search finds a board; a digit before
  it is off, or its \<open>assign\<close> fails, or its search returns none.
\<close>

lemma try_digits_first:
  "try_digits R A k p is s = Some (Inr (Some s')) \<longleftrightarrow>
     (\<exists>pre i post s1. is = pre @ i # post \<and> is_on p i \<and> A k i s = Some (True, s1) \<and>
        R (Some s1) = Some (Inr (Some s')) \<and>
        (\<forall>j \<in> set pre. \<not> is_on p j \<or> (\<exists>t. A k j s = Some (False, t)) \<or>
           (\<exists>t. A k j s = Some (True, t) \<and> R (Some t) = Some (Inr None))))"
proof (induction "is")
  case Nil
  then show ?case by simp
next
  case (Cons j js)
  let ?hit = "\<lambda>xs. \<exists>pre i post s1. xs = pre @ i # post \<and> is_on p i \<and> A k i s = Some (True, s1) \<and>
        R (Some s1) = Some (Inr (Some s')) \<and>
        (\<forall>j \<in> set pre. \<not> is_on p j \<or> (\<exists>t. A k j s = Some (False, t)) \<or>
           (\<exists>t. A k j s = Some (True, t) \<and> R (Some t) = Some (Inr None)))"
  let ?skip = "\<not> is_on p j \<or> (\<exists>t. A k j s = Some (False, t)) \<or>
           (\<exists>t. A k j s = Some (True, t) \<and> R (Some t) = Some (Inr None))"
  let ?here = "is_on p j \<and> (\<exists>s1. A k j s = Some (True, s1) \<and> R (Some s1) = Some (Inr (Some s')))"
  have split: "?hit (j # js) \<longleftrightarrow> ?here \<or> (?skip \<and> ?hit js)"
  proof
    assume "?hit (j # js)"
    then obtain pre i post s1 where h: "j # js = pre @ i # post" "is_on p i" "A k i s = Some (True, s1)"
      "R (Some s1) = Some (Inr (Some s'))"
      "\<forall>j \<in> set pre. \<not> is_on p j \<or> (\<exists>t. A k j s = Some (False, t)) \<or>
           (\<exists>t. A k j s = Some (True, t) \<and> R (Some t) = Some (Inr None))"
      by blast
    show "?here \<or> (?skip \<and> ?hit js)"
    proof (cases pre)
      case Nil
      with h show ?thesis by auto
    next
      case (Cons a pre')
      with h(1) have "a = j" "js = pre' @ i # post" by simp_all
      with h Cons have "?skip" "?hit js" by auto
      then show ?thesis by blast
    qed
  next
    assume "?here \<or> (?skip \<and> ?hit js)"
    then show "?hit (j # js)"
    proof
      assume ?here
      then obtain s1 where "is_on p j" "A k j s = Some (True, s1)" "R (Some s1) = Some (Inr (Some s'))"
        by blast
      then show ?thesis by (intro exI[of _ "[]"] exI[of _ j] exI[of _ js] exI[of _ s1]) simp
    next
      assume a: "?skip \<and> ?hit js"
      then obtain pre i post s1 where h: "js = pre @ i # post" "is_on p i" "A k i s = Some (True, s1)"
        "R (Some s1) = Some (Inr (Some s'))"
        "\<forall>j \<in> set pre. \<not> is_on p j \<or> (\<exists>t. A k j s = Some (False, t)) \<or>
             (\<exists>t. A k j s = Some (True, t) \<and> R (Some t) = Some (Inr None))"
        by blast
      with a show ?thesis
        by (intro exI[of _ "j # pre"] exI[of _ i] exI[of _ post] exI[of _ s1]) simp
    qed
  qed
  have "try_digits R A k p (j # js) s = Some (Inr (Some s')) \<longleftrightarrow>
      ?here \<or> (?skip \<and> try_digits R A k p js s = Some (Inr (Some s')))"
    by (auto split: option.splits bool.splits sum.splits)
  then show ?case using Cons.IH split by simp
qed

subsection \<open>The search returns\<close>

lemma try_digits_returns:
  assumes "\<And>i. i \<in> set is \<Longrightarrow> \<exists>b t. A k i s = Some (b, t) \<and> (b \<longrightarrow> R (Some t) \<noteq> None)"
  shows "try_digits R A k p is s \<noteq> None"
  using assms
proof (induction "is")
  case Nil
  then show ?case by simp
next
  case (Cons i "is")
  from Cons.prems[of i] obtain b t where a: "A k i s = Some (b, t)" "b \<longrightarrow> R (Some t) \<noteq> None"
    by auto
  have rest: "try_digits R A k p is s \<noteq> None" using Cons by simp
  show ?case
  proof (cases "is_on p i")
    case False
    then show ?thesis using rest by simp
  next
    case True
    then show ?thesis
      using a rest by (cases b) (auto split: option.splits sum.splits)
  qed
qed

text \<open>
  With two units of fuel more than the sum of the candidate counts, \<open>solve\<close> returns:
  a board, none, or the read outside the vector.
\<close>

lemma solve_returns:
  assumes T: "wf_topology T"
  shows "wf_sudoku s \<Longrightarrow> Suc (total_count s) < n \<Longrightarrow> solve n T (Some s) \<noteq> None"
proof (induction n arbitrary: s)
  case 0
  then show ?case by simp
next
  case (Suc n)
  have len: "length s = 81" using Suc.prems(1) by (simp add: wf_sudoku_def)
  show ?case
  proof (cases "is_solved s \<or> least_count s < 0 \<or> int (length s) \<le> least_count s")
    case True
    then show ?thesis by (auto simp: Let_def)
  next
    case False
    let ?k = "nat (least_count s)"
    have k: "?k < 81" "1 < count (s ! ?k)"
      using False len least_count_cases[of s] by auto
    have "try_digits (solve n T) (assign n T) ?k (s ! ?k) [1..9] s \<noteq> None"
    proof (rule try_digits_returns)
      fix i :: int assume i: "i \<in> set [1..9]"
      from assign_returns[OF T Suc.prems(1) k(1), of n i] Suc.prems(2)
      obtain b t where a: "assign n T ?k i s = Some (b, t)" by auto
      have "solve n T (Some t) \<noteq> None" if b
      proof -
        have a': "assign n T ?k i s = Some (True, t)" using a that by simp
        have sh: "shrinks s t" using a by (rule assign_shrinks)
        have wft: "wf_sudoku t" using sh Suc.prems(1) by (rule shrinks_wf)
        have cell: "length (s ! ?k) = 9" using Suc.prems(1) k(1) by (rule wf_cell)
        have one: "count (t ! ?k) \<le> 1"
        proof (rule ccontr)
          assume "\<not> count (t ! ?k) \<le> 1"
          then have two: "1 < count (t ! ?k)" by simp
          have lt: "length (t ! ?k) = 9" using wft k(1) by (rule wf_cell)
          have "\<not> t ! ?k ! j" if "j < 9" "j \<noteq> nat (i - 1)" for j
            using assign_others_off[OF Suc.prems(1) k(1) a', of "int j + 1"] that
            by (auto simp: is_on_def)
          then have off: "\<not> (t ! ?k)[nat (i - 1) := False] ! j" if "j < 9" for j
            using that lt by (cases "j = nat (i - 1)") simp_all
          have "count ((t ! ?k)[nat (i - 1) := False]) = 0"
          proof (rule ccontr)
            assume "count ((t ! ?k)[nat (i - 1) := False]) \<noteq> 0"
            then have "0 < count ((t ! ?k)[nat (i - 1) := False])" by simp
            then obtain j where "j < 9" "(t ! ?k)[nat (i - 1) := False] ! j"
              using lt count_pos_iff[of "(t ! ?k)[nat (i - 1) := False]"] by auto
            then show False using off by blast
          qed
          moreover have "count (t ! ?k) \<le> Suc (count ((t ! ?k)[nat (i - 1) := False]))"
          proof (cases "nat (i - 1) < 9 \<and> t ! ?k ! nat (i - 1)")
            case True
            then show ?thesis using count_update_False[of "nat (i - 1)" "t ! ?k"] lt by simp
          next
            case False
            have "(t ! ?k)[nat (i - 1) := False] = t ! ?k"
            proof (cases "nat (i - 1) < 9")
              case True
              then have "\<not> t ! ?k ! nat (i - 1)" using False by simp
              then show ?thesis using True lt by (simp add: list_update_same_conv)
            next
              case False
              then show ?thesis using lt by (simp add: list_update_beyond)
            qed
            then show ?thesis by simp
          qed
          ultimately show False using two by simp
        qed
        have "total_count t < total_count s"
        proof -
          have "total_count (s[?k := t ! ?k]) < total_count s"
            using k one len by (intro total_count_less) simp_all
          moreover have "shrinks (s[?k := t ! ?k]) t"
          proof -
            have "length (t ! c) = length (s[?k := t ! ?k] ! c) \<and>
                (\<forall>j < length (s[?k := t ! ?k] ! c). t ! c ! j \<longrightarrow> s[?k := t ! ?k] ! c ! j)"
              if "c < length s" for c
              using that sh by (cases "c = ?k") (simp_all add: shrinks_def)
            then show ?thesis using sh by (simp add: shrinks_def)
          qed
          ultimately show ?thesis using shrinks_total[of "s[?k := t ! ?k]" t] by simp
        qed
        then have "Suc (total_count t) < n" using Suc.prems(2) by simp
        with wft show ?thesis by (rule Suc.IH)
      qed
      with a show "\<exists>b t. assign n T ?k i s = Some (b, t) \<and> (b \<longrightarrow> solve n T (Some t) \<noteq> None)"
        by blast
    qed
    then show ?thesis using False by (simp add: Let_def)
  qed
qed

subsection \<open>The construction returns\<close>

lemma assign_givens_returns:
  assumes T: "wf_topology T"
  shows "wf_sudoku s \<Longrightarrow> total_count s < n \<Longrightarrow> list_all (\<lambda>g. fst g < 81) gs \<Longrightarrow>
     \<exists>log s'. assign_givens (assign n T) gs s = Some (Inr (log, s'))"
proof (induction gs arbitrary: s)
  case Nil
  then show ?case by simp
next
  case (Cons g gs)
  obtain k d where g: "g = (k, d)" by (cases g)
  have len: "length s = 81" using Cons.prems(1) by (simp add: wf_sudoku_def)
  have k: "k < 81" using Cons.prems(3) g by simp
  from assign_returns[OF T Cons.prems(1) k Cons.prems(2), of d]
  obtain b t where a: "assign n T k d s = Some (b, t)" by blast
  show ?case
  proof (cases b)
    case False
    then show ?thesis using a k len g by simp
  next
    case True
    have sh: "shrinks s t" using a by (rule assign_shrinks)
    have "wf_sudoku t" using sh Cons.prems(1) by (rule shrinks_wf)
    moreover have "total_count t < n" using shrinks_total[OF sh] Cons.prems(2) by simp
    moreover have "list_all (\<lambda>g. fst g < 81) gs" using Cons.prems(3) by simp
    ultimately obtain log s' where "assign_givens (assign n T) gs t = Some (Inr (log, s'))"
      using Cons.IH by blast
    then show ?thesis using a True k len g by simp
  qed
qed

text \<open>
  With the tables built by \<open>init\<close>, two equal givens in cells 0 and 1 make the
  constructor write its message.
\<close>

lemma givens_11: "givens ''11'' = [(0, 1), (1, 1)]"
  by (simp add: givens_def cell_index_def given_char_def blank_char_def digit_of_def upt_rec)

lemma conflicting_givens_rejected_after_init:
  "\<exists>s. Sudoku 730 (init static_topology) ''11'' = Some (Inr ([''error''], s))"
proof -
  let ?T = "init static_topology"
  have "\<exists>log s'. assign_givens (assign 730 ?T) (givens ''11'') (replicate 81 Possible)
      = Some (Inr (log, s'))"
    using wf_init wf_fresh by (rule assign_givens_returns) (simp_all add: total_fresh givens_11)
  then obtain log s where c: "Sudoku 730 ?T ''11'' = Some (Inr (log, s))"
    using scan_assigns_givens[of "assign 730 ?T" "''11''" 0 "replicate 81 Possible"]
    by (auto simp: Sudoku_def)
  have g: "givens ''11'' = [] @ (0, 1) # [] @ (1, 1) # []" by (simp add: givens_11)
  have nb: "(1::nat) \<in> set (neighbors ?T ! 0)" by (simp add: neighbors_0)
  have "log = [''error'']"
    using wf_init g nb _ _ c by (rule conflict_detected) simp_all
  with c show ?thesis by blast
qed

lemma Possible_flags: "Possible = [True, True, True, True, True, True, True, True, True]"
  by (simp add: Possible_def eval_nat_numeral)

subsection \<open>The neighbours that init records are the peers\<close>

lemma groups_of_cells:
  "list_all (\<lambda>k. groups_of (init static_topology) ! k =
       [k div 9, 9 + k mod 9, 18 + (k div 9 div 3) * 3 + k mod 9 div 3]) [0..<81]"
  by (simp add: init_tables init_groups_static upt_rec)

lemma groups_of_cell:
  "k < 81 \<Longrightarrow> groups_of (init static_topology) ! k =
     [k div 9, 9 + k mod 9, 18 + (k div 9 div 3) * 3 + k mod 9 div 3]"
  using groups_of_cells by (simp add: list_all_iff)

lemma cells_in_groups:
  "list_all (\<lambda>k. list_all (\<lambda>x. k \<in> set (group (init static_topology) ! x))
       (groups_of (init static_topology) ! k)) [0..<81]"
  by (simp add: init_tables init_groups_static upt_rec)

lemma member_iff_group:
  assumes "k < 81" "p < 81" "x \<in> set (groups_of (init static_topology) ! k)"
  shows "p \<in> set (group (init static_topology) ! x) \<longleftrightarrow> x \<in> set (groups_of (init static_topology) ! p)"
proof
  assume "p \<in> set (group (init static_topology) ! x)"
  then show "x \<in> set (groups_of (init static_topology) ! p)"
    using group_init(2)[of x] groups_of_init(1)[OF assms(1,3)] by blast
next
  assume "x \<in> set (groups_of (init static_topology) ! p)"
  then show "p \<in> set (group (init static_topology) ! x)"
    using cells_in_groups assms(2) by (auto simp: list_all_iff)
qed

lemma neighbors_are_peers:
  assumes "k < 81" "p < 81"
  shows "p \<in> set (neighbors (init static_topology) ! k) \<longleftrightarrow> peer k p"
proof -
  have "p \<in> set (neighbors (init static_topology) ! k) \<longleftrightarrow>
      p \<noteq> k \<and> (\<exists>x \<in> set (groups_of (init static_topology) ! k).
                    x \<in> set (groups_of (init static_topology) ! p))"
    using member_iff_group[OF assms] by (auto simp: set_neighbors_init[OF assms(1)])
  also have "\<dots> \<longleftrightarrow> peer k p"
  proof -
    have "k div 9 < 9" "p div 9 < 9" using assms by simp_all
    then show ?thesis
      by (auto simp: groups_of_cell[OF assms(1)] groups_of_cell[OF assms(2)] peer_def)
  qed
  finally show ?thesis .
qed

lemma neighbors_inside:
  "k < 81 \<Longrightarrow> p \<in> set (neighbors (init static_topology) ! k) \<Longrightarrow> p < 81"
  using wf_init by (auto simp: wf_topology_def list_all_length in_set_conv_nth)

subsection \<open>What a successful assign leaves\<close>

lemma assign_single_same:
  assumes "wf_sudoku s" "k < 81" "1 \<le> v" "v \<le> 9" "is_on (s ! k) v" "count (s ! k) = 1"
    and "assign n T k v s = Some (True, s')"
  shows "s' = s"
proof -
  have len: "length (s ! k) = 9" using assms(1,2) by (rule wf_cell)
  have "val (s ! k) = v" using assms(6,5,3,4) len by (intro count_one_val) simp_all
  then have c: "s ! k = single v" using single_val[OF len assms(6)] by simp
  have "(\<lambda>a b. b = a) s s'"
  proof (rule assign_with_ok[OF assms(7)[unfolded assign_def]])
    fix i :: int and t t'
    assume i: "1 \<le> i" "i \<le> 9" "i \<noteq> v" and t: "t = s" and e: "eliminate n T k i t = Some (True, t')"
    have off: "\<not> is_on (s ! k) i" using i assms(3,4) by (simp add: c is_on_single)
    obtain m where n: "n = Suc m" using e by (cases n) simp_all
    show "t' = t" using e off t by (simp add: n eliminate_off)
  qed simp_all
  then show ?thesis .
qed

text \<open>
  Claim C10, as the code has it. If the digit is a candidate at the cell and
  \<open>assign\<close> succeeds, the cell is left with exactly that digit, whatever the tables
  hold. With the tables that \<open>init\<close> builds, the digit is then off at every peer of
  the cell, provided the cell had more than one candidate before the call. A cell that
  already holds the digit alone is left as it is, and so is the rest of the board: every
  \<open>eliminate\<close> of \<open>assign\<close> then finds its digit off and returns at once.
\<close>

theorem assign_result:
  assumes "wf_topology T" "wf_sudoku s" "k < 81" "1 \<le> v" "v \<le> 9" "is_on (s ! k) v"
    and "assign n T k v s = Some (True, s')"
  shows "count (s' ! k) = 1 \<and> val (s' ! k) = v \<and> is_on (s' ! k) v \<and>
         (\<forall>i. 1 \<le> i \<and> i \<le> 9 \<and> i \<noteq> v \<longrightarrow> \<not> is_on (s' ! k) i) \<and>
         (count (s ! k) = 1 \<longrightarrow> s' = s) \<and>
         (T = init static_topology \<and> 1 < count (s ! k) \<longrightarrow>
            (\<forall>p < 81. peer k p \<longrightarrow> \<not> is_on (s' ! p) v))"
proof -
  have "\<forall>p < 81. peer k p \<longrightarrow> \<not> is_on (s' ! p) v"
    if "T = init static_topology" "1 < count (s ! k)"
    using assign_leaves_single[OF assms] that neighbors_are_peers[OF assms(3)] by simp
  moreover have "s' = s" if "count (s ! k) = 1"
    using assms(2-6) that assms(7) by (rule assign_single_same)
  ultimately show ?thesis using assign_leaves_single[OF assms] by blast
qed

text \<open>The board that \<open>assign(0, 1)\<close> leaves of the fresh board, with the tables built.\<close>

lemma assign_fresh:
  "assign (Suc (Suc (Suc 0))) (init static_topology) 0 1 (replicate 81 Possible) =
    Some
     (True,
      (replicate 81 [True, True, True, True, True, True, True, True, True])
      [0 := [True, False, False, False, False, False, False, False, False],
       Suc 0 := [False, True, True, True, True, True, True, True, True],
       2 := [False, True, True, True, True, True, True, True, True],
       3 := [False, True, True, True, True, True, True, True, True],
       4 := [False, True, True, True, True, True, True, True, True],
       5 := [False, True, True, True, True, True, True, True, True],
       6 := [False, True, True, True, True, True, True, True, True],
       7 := [False, True, True, True, True, True, True, True, True],
       8 := [False, True, True, True, True, True, True, True, True],
       9 := [False, True, True, True, True, True, True, True, True],
       18 := [False, True, True, True, True, True, True, True, True],
       27 := [False, True, True, True, True, True, True, True, True],
       36 := [False, True, True, True, True, True, True, True, True],
       45 := [False, True, True, True, True, True, True, True, True],
       54 := [False, True, True, True, True, True, True, True, True],
       63 := [False, True, True, True, True, True, True, True, True],
       72 := [False, True, True, True, True, True, True, True, True],
       10 := [False, True, True, True, True, True, True, True, True],
       11 := [False, True, True, True, True, True, True, True, True],
       19 := [False, True, True, True, True, True, True, True, True],
       20 := [False, True, True, True, True, True, True, True, True]])"
  by (simp add: assign_def assign_with_def digits_1_9 eliminate_off eliminate_single eliminate_several
      is_on_def eliminate_bit_def count_def val_def neighbors_0 init_tables init_groups_static
      check_group_def places_def Possible_flags upt_rec)

text \<open>
  On the fresh board, with the tables built, \<open>assign(0, 1)\<close> leaves the digit 1 alone
  at cell 0 and removes it from the twenty peers of cell 0, all of which admitted it
  before the call.
\<close>

theorem assign_result_witness:
  "\<exists>s'. assign 3 (init static_topology) 0 1 (replicate 81 Possible) = Some (True, s') \<and>
     count (s' ! 0) = 1 \<and> val (s' ! 0) = 1 \<and>
     list_all (\<lambda>p. peer 0 p \<and> is_on (replicate 81 Possible ! p) 1 \<and> \<not> is_on (s' ! p) 1)
       [1, 2, 3, 4, 5, 6, 7, 8, 9, 10, 11, 18, 19, 20, 27, 36, 45, 54, 63, 72]"
proof -
  obtain s' where a: "assign 3 (init static_topology) 0 1 (replicate 81 Possible) = Some (True, s')"
    using assign_fresh by (simp add: numeral_3_eq_3)
  have on: "is_on (replicate 81 Possible ! 0) 1" by (simp add: is_on_Possible)
  have r: "count (s' ! 0) = 1 \<and> val (s' ! 0) = 1 \<and> is_on (s' ! 0) 1 \<and>
         (\<forall>i. 1 \<le> i \<and> i \<le> 9 \<and> i \<noteq> 1 \<longrightarrow> \<not> is_on (s' ! 0) i) \<and>
         (count (replicate 81 Possible ! 0) = 1 \<longrightarrow> s' = replicate 81 Possible) \<and>
         (init static_topology = init static_topology \<and> 1 < count (replicate 81 Possible ! 0) \<longrightarrow>
            (\<forall>p < 81. peer 0 p \<longrightarrow> \<not> is_on (s' ! p) 1))"
    by (rule assign_result[OF wf_init wf_fresh _ _ _ on a]) simp_all
  have "1 < count (replicate 81 Possible ! 0)" by (simp add: count_Possible)
  with r have off: "\<not> is_on (s' ! p) 1" if "p < 81" "peer 0 p" for p
    using that by blast
  have "list_all (\<lambda>p. p < 81 \<and> peer 0 p \<and> is_on (replicate 81 Possible ! p) 1)
      [1, 2, 3, 4, 5, 6, 7, 8, 9, 10, 11, 18, 19, 20, 27, 36, 45, 54, 63, 72]"
    by (simp add: peer_def is_on_Possible)
  then have "list_all (\<lambda>p. peer 0 p \<and> is_on (replicate 81 Possible ! p) 1 \<and> \<not> is_on (s' ! p) 1)
      [1, 2, 3, 4, 5, 6, 7, 8, 9, 10, 11, 18, 19, 20, 27, 36, 45, 54, 63, 72]"
    using off by (auto simp: list_all_iff)
  with r a show ?thesis by blast
qed

text \<open>
  Claim C10 as stated fails on a cell that already holds the digit alone while a peer
  still admits it. Cell 0 holds the digit 1 alone and cell 1, of the same row, is fresh.
  With the tables built, \<open>assign(0, 1)\<close> finds every other digit off at cell 0,
  returns \<open>True\<close> and changes nothing: the digit 1 is still a candidate at cell 1.
\<close>

theorem assign_result_counterexample:
  "is_on ((replicate 81 Possible)[0 := single 1] ! 0) 1 \<and>
   assign 1 (init static_topology) 0 1 ((replicate 81 Possible)[0 := single 1])
     = Some (True, (replicate 81 Possible)[0 := single 1]) \<and>
   peer 0 1 \<and>
   1 \<in> set (neighbors (init static_topology) ! 0) \<and>
   is_on ((replicate 81 Possible)[0 := single 1] ! 1) 1"
  by (simp add: assign_def assign_with_def digits_1_9 eliminate_off is_on_single is_on_Possible
      neighbors_0 peer_def)

subsection \<open>The loop over the digits, in the order 1..9\<close>

lemma leads_to_iff:
  "leads_to n T k i s s' \<longleftrightarrow>
     (\<exists>t. assign n T k i s = Some (True, t) \<and> solve n T (Some t) = Some (Inr (Some s')))"
  by (auto simp: leads_to_def split: option.splits bool.splits)

lemma rejected_iff:
  "rejected n T k i s \<longleftrightarrow>
     (\<exists>t. assign n T k i s = Some (False, t)) \<or>
     (\<exists>t. assign n T k i s = Some (True, t) \<and> solve n T (Some t) = Some (Inr None))"
  by (auto simp: rejected_def split: option.splits bool.splits)

lemma digits_before:
  assumes "[1..9] = pre @ i # post"
  shows "1 \<le> i" "i \<le> 9" "set pre = {j. 1 \<le> j \<and> j < i}"
proof -
  have "i \<in> set (pre @ i # post)" by simp
  then have i: "i \<in> set [1..9]" by (simp only: assms)
  then show "1 \<le> i" "i \<le> 9" by simp_all
  have so: "sorted (pre @ i # post)" "distinct (pre @ i # post)"
    using assms sorted_upto[of 1 9] distinct_upto[of 1 9] by simp_all
  show "set pre = {j. 1 \<le> j \<and> j < i}"
  proof (intro equalityI subsetI)
    fix j assume j: "j \<in> set pre"
    then have "j \<in> set (pre @ i # post)" by simp
    then have "j \<in> set [1..9]" by (simp only: assms)
    moreover have "j \<le> i" using so(1) j by (simp add: sorted_append)
    moreover have "j \<noteq> i" using so(2) j by auto
    ultimately show "j \<in> {j. 1 \<le> j \<and> j < i}" by simp
  next
    fix j assume "j \<in> {j. 1 \<le> j \<and> j < i}"
    then have j: "1 \<le> j" "j < i" by simp_all
    then have "j \<in> set [1..9]" using \<open>i \<le> 9\<close> by simp
    then have "j \<in> set (pre @ i # post)" by (simp only: assms)
    then have "j \<in> set pre \<or> j = i \<or> j \<in> set post" by auto
    moreover have "i \<le> j" if "j \<in> set post" using so(1) that by (simp add: sorted_append)
    ultimately show "j \<in> set pre" using j by auto
  qed
qed

lemma digits_split:
  assumes "1 \<le> i" "i \<le> 9"
  shows "[1..9] = [1..i - 1] @ i # [i + 1..9]"
  using assms upto_split3[of 1 i 9] by simp

lemma try_digits_none_iff:
  "try_digits R A k p is s = Some (Inr None) \<longleftrightarrow>
     (\<forall>i \<in> set is. is_on p i \<longrightarrow>
        (\<exists>t. A k i s = Some (False, t)) \<or> (\<exists>t. A k i s = Some (True, t) \<and> R (Some t) = Some (Inr None)))"
  by (induction "is") (auto split: option.splits bool.splits sum.splits)

lemma try_digits_ok:
  assumes "\<And>i. i \<in> set is \<Longrightarrow> \<exists>b t. A k i s = Some (b, t) \<and> (b \<longrightarrow> (\<exists>r. R (Some t) = Some (Inr r)))"
  shows "\<exists>r. try_digits R A k p is s = Some (Inr r)"
  using assms
proof (induction "is")
  case Nil
  then show ?case by simp
next
  case (Cons i "is")
  from Cons.prems[of i] obtain b t where a: "A k i s = Some (b, t)" "b \<longrightarrow> (\<exists>r. R (Some t) = Some (Inr r))"
    by auto
  have rest: "\<exists>r. try_digits R A k p is s = Some (Inr r)" using Cons by simp
  show ?case
  proof (cases "is_on p i \<and> b")
    case False
    then show ?thesis using rest a by (cases b) auto
  next
    case True
    then obtain r where "R (Some t) = Some (Inr r)" using a by blast
    then show ?thesis using True a rest by (cases r) auto
  qed
qed

lemma try_digits_in_order:
  "try_digits (solve n T) (assign n T) k p [1..9] s = Some (Inr (Some s')) \<longleftrightarrow>
     (\<exists>i. 1 \<le> i \<and> i \<le> 9 \<and> is_on p i \<and> leads_to n T k i s s' \<and>
          (\<forall>j. 1 \<le> j \<and> j < i \<and> is_on p j \<longrightarrow> rejected n T k j s))"
proof
  assume "try_digits (solve n T) (assign n T) k p [1..9] s = Some (Inr (Some s'))"
  then obtain pre i post s1 where h: "[1..9] = pre @ i # post" "is_on p i"
      "assign n T k i s = Some (True, s1)" "solve n T (Some s1) = Some (Inr (Some s'))"
      "\<forall>j \<in> set pre. \<not> is_on p j \<or> (\<exists>t. assign n T k j s = Some (False, t)) \<or>
           (\<exists>t. assign n T k j s = Some (True, t) \<and> solve n T (Some t) = Some (Inr None))"
    unfolding try_digits_first by blast
  have "leads_to n T k i s s'" using h(3,4) by (auto simp: leads_to_iff)
  moreover have "rejected n T k j s" if "1 \<le> j" "j < i" "is_on p j" for j
  proof -
    have "j \<in> set pre" using digits_before(3)[OF h(1)] that by simp
    then show ?thesis using h(5) that(3) by (auto simp: rejected_iff)
  qed
  ultimately show "\<exists>i. 1 \<le> i \<and> i \<le> 9 \<and> is_on p i \<and> leads_to n T k i s s' \<and>
          (\<forall>j. 1 \<le> j \<and> j < i \<and> is_on p j \<longrightarrow> rejected n T k j s)"
    using digits_before(1,2)[OF h(1)] h(2) by blast
next
  assume "\<exists>i. 1 \<le> i \<and> i \<le> 9 \<and> is_on p i \<and> leads_to n T k i s s' \<and>
          (\<forall>j. 1 \<le> j \<and> j < i \<and> is_on p j \<longrightarrow> rejected n T k j s)"
  then obtain i where i: "1 \<le> i" "i \<le> 9" "is_on p i" "leads_to n T k i s s'"
      "\<forall>j. 1 \<le> j \<and> j < i \<and> is_on p j \<longrightarrow> rejected n T k j s"
    by blast
  from i(4) obtain s1 where s1: "assign n T k i s = Some (True, s1)"
      "solve n T (Some s1) = Some (Inr (Some s'))"
    by (auto simp: leads_to_iff)
  have "\<forall>j \<in> set [1..i - 1]. \<not> is_on p j \<or> (\<exists>t. assign n T k j s = Some (False, t)) \<or>
           (\<exists>t. assign n T k j s = Some (True, t) \<and> solve n T (Some t) = Some (Inr None))"
    using i(5) by (auto simp: rejected_iff)
  then show "try_digits (solve n T) (assign n T) k p [1..9] s = Some (Inr (Some s'))"
    unfolding try_digits_first using digits_split[OF i(1,2)] i(3) s1 by blast
qed

lemma try_digits_exhausted:
  "try_digits (solve n T) (assign n T) k p [1..9] s = Some (Inr None) \<longleftrightarrow>
     (\<forall>i. 1 \<le> i \<and> i \<le> 9 \<and> is_on p i \<longrightarrow> rejected n T k i s)"
  by (auto simp: try_digits_none_iff rejected_iff)

subsection \<open>The boards that reach solve\<close>

lemma unsolved_has_choice:
  assumes "wf_sudoku s" "\<forall>c < 81. 0 < count (s ! c)" "\<not> is_solved s"
  shows "\<exists>i < length s. 1 < count (s ! i)"
proof -
  have len: "length s = 81" using assms(1) by (simp add: wf_sudoku_def)
  from assms(3) obtain i where i: "i < length s" "count (s ! i) \<noteq> 1"
    by (auto simp: is_solved_def list_all_length)
  then have "1 < count (s ! i)" using assms(2) len by (auto simp: less_Suc_eq dest!: spec[of _ i])
  with i(1) show ?thesis by blast
qed

lemma assign_lowers_total:
  assumes "wf_sudoku s" "k < 81" "1 < count (s ! k)" "assign n T k i s = Some (True, t)"
  shows "total_count t < total_count s"
proof -
  have len: "length s = 81" using assms(1) by (simp add: wf_sudoku_def)
  have sh: "shrinks s t" using assms(4) by (rule assign_shrinks)
  have wft: "wf_sudoku t" using sh assms(1) by (rule shrinks_wf)
  have lt: "length (t ! k) = 9" using wft assms(2) by (rule wf_cell)
  have off: "\<not> (t ! k)[nat (i - 1) := False] ! j" if "j < 9" for j
  proof (cases "j = nat (i - 1)")
    case True
    then show ?thesis using that lt by simp
  next
    case False
    then have "\<not> is_on (t ! k) (int j + 1)"
      using assign_others_off[OF assms(1,2,4), of "int j + 1"] that by auto
    then show ?thesis using False that lt by (simp add: is_on_def)
  qed
  have zero: "count ((t ! k)[nat (i - 1) := False]) = 0"
  proof (rule ccontr)
    assume "count ((t ! k)[nat (i - 1) := False]) \<noteq> 0"
    then have "0 < count ((t ! k)[nat (i - 1) := False])" by simp
    then obtain j where "j < 9" "(t ! k)[nat (i - 1) := False] ! j"
      using lt count_pos_iff[of "(t ! k)[nat (i - 1) := False]"] by auto
    then show False using off by blast
  qed
  have "count (t ! k) \<le> Suc (count ((t ! k)[nat (i - 1) := False]))"
  proof (cases "nat (i - 1) < 9 \<and> t ! k ! nat (i - 1)")
    case True
    then show ?thesis using count_update_False[of "nat (i - 1)" "t ! k"] lt by simp
  next
    case False
    have "(t ! k)[nat (i - 1) := False] = t ! k"
    proof (cases "nat (i - 1) < 9")
      case True
      then have "\<not> t ! k ! nat (i - 1)" using False by simp
      then show ?thesis using True lt by (simp add: list_update_same_conv)
    next
      case False
      then show ?thesis using lt by (simp add: list_update_beyond)
    qed
    then show ?thesis by simp
  qed
  then have one: "count (t ! k) < count (s ! k)" using zero assms(3) by simp
  have "total_count (s[k := t ! k]) < total_count s"
    using assms(2) one len by (intro total_count_less) simp_all
  moreover have "shrinks (s[k := t ! k]) t"
  proof -
    have "length (t ! c) = length (s[k := t ! k] ! c) \<and>
        (\<forall>j < length (s[k := t ! k] ! c). t ! c ! j \<longrightarrow> s[k := t ! k] ! c ! j)"
      if "c < length s" for c
      using that sh by (cases "c = k") (simp_all add: shrinks_def)
    then show ?thesis using sh by (simp add: shrinks_def)
  qed
  ultimately show ?thesis using shrinks_total[of "s[k := t ! k]" t] by simp
qed

text \<open>
  A successful \<open>assign\<close> empties no cell, so the boards of the recursive calls have no
  empty cell when the board of the first call has none; on such boards the search
  returns a board or none, and never reads outside the vector.
\<close>

lemma assign_keeps_cells:
  assumes "wf_topology T" "wf_sudoku s" "k < 81" "assign n T k i s = Some (True, t)"
    and "\<forall>c < 81. 0 < count (s ! c)"
  shows "wf_sudoku t \<and> (\<forall>c < 81. 0 < count (t ! c))"
proof -
  have P: "propagates T s t" using assms(1-4) by (rule assign_propagates)
  have "wf_sudoku t" using propagates_shrinks[OF P] assms(2) by (rule shrinks_wf)
  moreover have "length s = 81" using assms(2) by (simp add: wf_sudoku_def)
  ultimately show ?thesis using P assms(5) by (simp add: propagates_def)
qed

lemma solve_total:
  assumes T: "wf_topology T"
  shows "wf_sudoku s \<Longrightarrow> \<forall>c < 81. 0 < count (s ! c) \<Longrightarrow> Suc (total_count s) < n \<Longrightarrow>
     \<exists>r. solve n T (Some s) = Some (Inr r)"
proof (induction n arbitrary: s)
  case 0
  then show ?case by simp
next
  case (Suc n)
  show ?case
  proof (cases "is_solved s")
    case True
    then show ?thesis by simp
  next
    case False
    let ?k = "nat (least_count s)"
    have ch: "\<exists>i < length s. 1 < count (s ! i)"
      using Suc.prems(1,2) False by (rule unsolved_has_choice)
    then have "\<not> (\<forall>i < length s. count (s ! i) \<le> 1)" by (auto simp: not_le)
    then have k: "?k < 81" "1 < count (s ! ?k)"
      using least_count_cases[of s] Suc.prems(1) by (auto simp: wf_sudoku_def)
    have "\<exists>r. try_digits (solve n T) (assign n T) ?k (s ! ?k) [1..9] s = Some (Inr r)"
    proof (rule try_digits_ok)
      fix i :: int assume "i \<in> set [1..9]"
      from assign_returns[OF T Suc.prems(1) k(1), of n i] Suc.prems(3)
      obtain b t where a: "assign n T ?k i s = Some (b, t)" by auto
      have "\<exists>r. solve n T (Some t) = Some (Inr r)" if b
      proof -
        have a': "assign n T ?k i s = Some (True, t)" using a that by simp
        have "wf_sudoku t \<and> (\<forall>c < 81. 0 < count (t ! c))"
          using T Suc.prems(1) k(1) a' Suc.prems(2) by (rule assign_keeps_cells)
        moreover have "total_count t < total_count s"
          using Suc.prems(1) k a' by (rule assign_lowers_total)
        then have "Suc (total_count t) < n" using Suc.prems(3) by simp
        ultimately show ?thesis using Suc.IH by blast
      qed
      with a show "\<exists>b t. assign n T ?k i s = Some (b, t) \<and> (b \<longrightarrow> (\<exists>r. solve n T (Some t) = Some (Inr r)))"
        by blast
    qed
    then show ?thesis using solve_branch[OF False ch, of n T] by simp
  qed
qed

text \<open>
  Claim C3, on the boards that reach \<open>solve\<close>: well formed and with a candidate in
  every cell. \<open>solve\<close> returns none for none and a solved board unchanged, and every
  board it returns is solved. On an unsolved board it takes the cell \<open>k\<close> that
  \<open>least_count\<close> returns, a cell of least count above 1, and returns a board or none.
  It returns the board \<open>s'\<close> exactly when
  some digit \<open>i\<close> of 1..9 that is a candidate at \<open>k\<close> leads to \<open>s'\<close> (\<open>assign\<close> on
  a copy of the board succeeds and the recursive call returns \<open>s'\<close>) while every
  candidate digit below \<open>i\<close> is rejected (\<open>assign\<close> fails or the recursive call
  returns none); it returns none exactly when every candidate digit is rejected.
\<close>

theorem solve_spec:
  assumes "wf_topology T" "wf_sudoku s" "\<forall>c < 81. 0 < count (s ! c)" "total_count s < n"
  shows "solve (Suc n) T None = Some (Inr None) \<and>
     (is_solved s \<longrightarrow> solve (Suc n) T (Some s) = Some (Inr (Some s))) \<and>
     (\<forall>s'. solve (Suc n) T (Some s) = Some (Inr (Some s')) \<longrightarrow> is_solved s') \<and>
     (\<not> is_solved s \<longrightarrow>
        0 \<le> least_count s \<and> nat (least_count s) < 81 \<and> 1 < count (s ! nat (least_count s)) \<and>
        (\<forall>j < 81. 1 < count (s ! j) \<longrightarrow> count (s ! nat (least_count s)) \<le> count (s ! j)) \<and>
        (\<exists>r. solve (Suc n) T (Some s) = Some (Inr r)) \<and>
        (\<forall>s'. solve (Suc n) T (Some s) = Some (Inr (Some s')) \<longleftrightarrow>
           (\<exists>i. 1 \<le> i \<and> i \<le> 9 \<and> is_on (s ! nat (least_count s)) i \<and>
                leads_to n T (nat (least_count s)) i s s' \<and>
                (\<forall>j. 1 \<le> j \<and> j < i \<and> is_on (s ! nat (least_count s)) j \<longrightarrow>
                   rejected n T (nat (least_count s)) j s))) \<and>
        (solve (Suc n) T (Some s) = Some (Inr None) \<longleftrightarrow>
           (\<forall>i. 1 \<le> i \<and> i \<le> 9 \<and> is_on (s ! nat (least_count s)) i \<longrightarrow>
              rejected n T (nat (least_count s)) i s)))"
proof (intro conjI impI)
  show "solve (Suc n) T None = Some (Inr None)" by simp
next
  show "\<forall>s'. solve (Suc n) T (Some s) = Some (Inr (Some s')) \<longrightarrow> is_solved s'"
    using solve_returns_solved by blast
next
  assume "is_solved s"
  then show "solve (Suc n) T (Some s) = Some (Inr (Some s))" by simp
next
  assume ns: "\<not> is_solved s"
  let ?k = "nat (least_count s)"
  have len: "length s = 81" using assms(2) by (simp add: wf_sudoku_def)
  have ch: "\<exists>i < length s. 1 < count (s ! i)" using assms(2,3) ns by (rule unsolved_has_choice)
  then have "\<not> (\<forall>i < length s. count (s ! i) \<le> 1)" by (auto simp: not_le)
  then have lc: "0 \<le> least_count s" "?k < length s" "1 < count (s ! ?k)"
      "\<forall>j < length s. 1 < count (s ! j) \<longrightarrow> count (s ! ?k) \<le> count (s ! j)"
    using least_count_cases[of s] by blast+
  have br: "solve (Suc n) T (Some s) =
      try_digits (solve n T) (assign n T) ?k (s ! ?k) [1..9] s"
    using ns ch by (rule solve_branch)
  show "0 \<le> least_count s" by (rule lc(1))
  show "?k < 81" using lc(2) len by simp
  show "1 < count (s ! ?k)" by (rule lc(3))
  show "\<forall>j < 81. 1 < count (s ! j) \<longrightarrow> count (s ! ?k) \<le> count (s ! j)"
    using lc(4) len by simp
  show "\<exists>r. solve (Suc n) T (Some s) = Some (Inr r)"
    using assms(1,2,3) by (rule solve_total) (use assms(4) in simp)
  show "\<forall>s'. solve (Suc n) T (Some s) = Some (Inr (Some s')) \<longleftrightarrow>
           (\<exists>i. 1 \<le> i \<and> i \<le> 9 \<and> is_on (s ! ?k) i \<and> leads_to n T ?k i s s' \<and>
                (\<forall>j. 1 \<le> j \<and> j < i \<and> is_on (s ! ?k) j \<longrightarrow> rejected n T ?k j s))"
    unfolding br by (simp only: try_digits_in_order) simp
  show "solve (Suc n) T (Some s) = Some (Inr None) \<longleftrightarrow>
           (\<forall>i. 1 \<le> i \<and> i \<le> 9 \<and> is_on (s ! ?k) i \<longrightarrow> rejected n T ?k i s)"
    unfolding br by (rule try_digits_exhausted)
qed

subsection \<open>Running the propagation on a board\<close>

lemma single_flags:
  "single 1 = [True, False, False, False, False, False, False, False, False]"
  "single 2 = [False, True, False, False, False, False, False, False, False]"
  "single 3 = [False, False, True, False, False, False, False, False, False]"
  "single 4 = [False, False, False, True, False, False, False, False, False]"
  "single 5 = [False, False, False, False, True, False, False, False, False]"
  "single 6 = [False, False, False, False, False, True, False, False, False]"
  "single 7 = [False, False, False, False, False, False, True, False, False]"
  "single 8 = [False, False, False, False, False, False, False, True, False]"
  "single 9 = [False, False, False, False, False, False, False, False, True]"
  by (simp_all add: single_def eval_nat_numeral)

lemma eliminate_off_numeral:
  "\<not> is_on (s ! k) v \<Longrightarrow> eliminate (numeral m) T k v s = Some (True, s)"
  unfolding numeral_eq_Suc by (rule eliminate_off)

lemma eliminate_dead_numeral:
  "is_on (s ! k) v \<Longrightarrow> count (s[k := eliminate_bit (s ! k) v] ! k) = 0 \<Longrightarrow>
   eliminate (numeral m) T k v s = Some (False, s[k := eliminate_bit (s ! k) v])"
  unfolding numeral_eq_Suc by (rule eliminate_dead)

lemma eliminate_single_numeral:
  "is_on (s ! k) v \<Longrightarrow> count (s[k := eliminate_bit (s ! k) v] ! k) = 1 \<Longrightarrow>
   eliminate (numeral m) T k v s =
     (case for_all (\<lambda>p. eliminate (pred_numeral m) T p (val (s[k := eliminate_bit (s ! k) v] ! k)))
             (neighbors T ! k) (s[k := eliminate_bit (s ! k) v]) of
        None \<Rightarrow> None
      | Some (False, s2) \<Rightarrow> Some (False, s2)
      | Some (True, s2) \<Rightarrow>
          for_all (check_group (eliminate (pred_numeral m) T) T v) (groups_of T ! k) s2)"
  unfolding numeral_eq_Suc by (rule eliminate_single)

lemma eliminate_several_numeral:
  "is_on (s ! k) v \<Longrightarrow> 1 < count (s[k := eliminate_bit (s ! k) v] ! k) \<Longrightarrow>
   eliminate (numeral m) T k v s =
     for_all (check_group (eliminate (pred_numeral m) T) T v) (groups_of T ! k)
       (s[k := eliminate_bit (s ! k) v])"
  unfolding numeral_eq_Suc by (rule eliminate_several)

lemma solve_solved_numeral:
  "is_solved s \<Longrightarrow> solve (numeral m) T (Some s) = Some (Inr (Some s))"
  unfolding numeral_eq_Suc by simp

lemmas run_propagation =
  assign_def assign_with_def digits_1_9 eliminate_off eliminate_dead eliminate_single
  eliminate_several eliminate_off_numeral eliminate_dead_numeral eliminate_single_numeral
  eliminate_several_numeral is_on_def eliminate_bit_def count_def val_def
  check_group_def places_def upt_rec single_flags

lemma cells_positive:
  "length s = 81 \<Longrightarrow> list_all (\<lambda>c. 0 < count c) s \<Longrightarrow> \<forall>c < 81. 0 < count (s ! c)"
  by (simp add: list_all_length)

text \<open>
  A solved grid with the digit 1 put back at cell 0, which holds 2, and the tables
  built. \<open>solve\<close> branches at cell 0. The digit 1 is rejected: \<open>assign(0, 1)\<close>
  removes the 1 of cell 8, the last candidate there. The digit 2 leads to the grid, which
  \<open>solve\<close> returns.
\<close>

theorem solve_spec_witness:
  "\<not> is_solved ((map single
      [2, 3, 4, 5, 6, 7, 8, 9, 1,
       5, 6, 7, 8, 9, 1, 2, 3, 4,
       8, 9, 1, 2, 3, 4, 5, 6, 7,
       3, 4, 5, 6, 7, 8, 9, 1, 2,
       6, 7, 8, 9, 1, 2, 3, 4, 5,
       9, 1, 2, 3, 4, 5, 6, 7, 8,
       4, 5, 6, 7, 8, 9, 1, 2, 3,
       7, 8, 9, 1, 2, 3, 4, 5, 6,
       1, 2, 3, 4, 5, 6, 7, 8, 9])
      [0 := [True, True, False, False, False, False, False, False, False]]) \<and>
   least_count ((map single
      [2, 3, 4, 5, 6, 7, 8, 9, 1,
       5, 6, 7, 8, 9, 1, 2, 3, 4,
       8, 9, 1, 2, 3, 4, 5, 6, 7,
       3, 4, 5, 6, 7, 8, 9, 1, 2,
       6, 7, 8, 9, 1, 2, 3, 4, 5,
       9, 1, 2, 3, 4, 5, 6, 7, 8,
       4, 5, 6, 7, 8, 9, 1, 2, 3,
       7, 8, 9, 1, 2, 3, 4, 5, 6,
       1, 2, 3, 4, 5, 6, 7, 8, 9])
      [0 := [True, True, False, False, False, False, False, False, False]]) = 0 \<and>
   rejected 730 (init static_topology) 0 1 ((map single
      [2, 3, 4, 5, 6, 7, 8, 9, 1,
       5, 6, 7, 8, 9, 1, 2, 3, 4,
       8, 9, 1, 2, 3, 4, 5, 6, 7,
       3, 4, 5, 6, 7, 8, 9, 1, 2,
       6, 7, 8, 9, 1, 2, 3, 4, 5,
       9, 1, 2, 3, 4, 5, 6, 7, 8,
       4, 5, 6, 7, 8, 9, 1, 2, 3,
       7, 8, 9, 1, 2, 3, 4, 5, 6,
       1, 2, 3, 4, 5, 6, 7, 8, 9])
      [0 := [True, True, False, False, False, False, False, False, False]]) \<and>
   leads_to 730 (init static_topology) 0 2 ((map single
      [2, 3, 4, 5, 6, 7, 8, 9, 1,
       5, 6, 7, 8, 9, 1, 2, 3, 4,
       8, 9, 1, 2, 3, 4, 5, 6, 7,
       3, 4, 5, 6, 7, 8, 9, 1, 2,
       6, 7, 8, 9, 1, 2, 3, 4, 5,
       9, 1, 2, 3, 4, 5, 6, 7, 8,
       4, 5, 6, 7, 8, 9, 1, 2, 3,
       7, 8, 9, 1, 2, 3, 4, 5, 6,
       1, 2, 3, 4, 5, 6, 7, 8, 9])
      [0 := [True, True, False, False, False, False, False, False, False]]) (map single
      [2, 3, 4, 5, 6, 7, 8, 9, 1,
       5, 6, 7, 8, 9, 1, 2, 3, 4,
       8, 9, 1, 2, 3, 4, 5, 6, 7,
       3, 4, 5, 6, 7, 8, 9, 1, 2,
       6, 7, 8, 9, 1, 2, 3, 4, 5,
       9, 1, 2, 3, 4, 5, 6, 7, 8,
       4, 5, 6, 7, 8, 9, 1, 2, 3,
       7, 8, 9, 1, 2, 3, 4, 5, 6,
       1, 2, 3, 4, 5, 6, 7, 8, 9]) \<and>
   solve 731 (init static_topology) (Some ((map single
      [2, 3, 4, 5, 6, 7, 8, 9, 1,
       5, 6, 7, 8, 9, 1, 2, 3, 4,
       8, 9, 1, 2, 3, 4, 5, 6, 7,
       3, 4, 5, 6, 7, 8, 9, 1, 2,
       6, 7, 8, 9, 1, 2, 3, 4, 5,
       9, 1, 2, 3, 4, 5, 6, 7, 8,
       4, 5, 6, 7, 8, 9, 1, 2, 3,
       7, 8, 9, 1, 2, 3, 4, 5, 6,
       1, 2, 3, 4, 5, 6, 7, 8, 9])
      [0 := [True, True, False, False, False, False, False, False, False]])) = Some (Inr (Some (map single
      [2, 3, 4, 5, 6, 7, 8, 9, 1,
       5, 6, 7, 8, 9, 1, 2, 3, 4,
       8, 9, 1, 2, 3, 4, 5, 6, 7,
       3, 4, 5, 6, 7, 8, 9, 1, 2,
       6, 7, 8, 9, 1, 2, 3, 4, 5,
       9, 1, 2, 3, 4, 5, 6, 7, 8,
       4, 5, 6, 7, 8, 9, 1, 2, 3,
       7, 8, 9, 1, 2, 3, 4, 5, 6,
       1, 2, 3, 4, 5, 6, 7, 8, 9])))"
proof -
  let ?s = "((map single
      [2, 3, 4, 5, 6, 7, 8, 9, 1,
       5, 6, 7, 8, 9, 1, 2, 3, 4,
       8, 9, 1, 2, 3, 4, 5, 6, 7,
       3, 4, 5, 6, 7, 8, 9, 1, 2,
       6, 7, 8, 9, 1, 2, 3, 4, 5,
       9, 1, 2, 3, 4, 5, 6, 7, 8,
       4, 5, 6, 7, 8, 9, 1, 2, 3,
       7, 8, 9, 1, 2, 3, 4, 5, 6,
       1, 2, 3, 4, 5, 6, 7, 8, 9])
      [0 := [True, True, False, False, False, False, False, False, False]])"
  let ?g = "(map single
      [2, 3, 4, 5, 6, 7, 8, 9, 1,
       5, 6, 7, 8, 9, 1, 2, 3, 4,
       8, 9, 1, 2, 3, 4, 5, 6, 7,
       3, 4, 5, 6, 7, 8, 9, 1, 2,
       6, 7, 8, 9, 1, 2, 3, 4, 5,
       9, 1, 2, 3, 4, 5, 6, 7, 8,
       4, 5, 6, 7, 8, 9, 1, 2, 3,
       7, 8, 9, 1, 2, 3, 4, 5, 6,
       1, 2, 3, 4, 5, 6, 7, 8, 9])"
  let ?T = "init static_topology"
  have wf: "wf_sudoku ?s" by (simp add: wf_sudoku_def single_flags)
  have ne: "\<forall>c < 81. 0 < count (?s ! c)"
    by (rule cells_positive) (simp_all add: count_def single_flags)
  have fuel: "total_count ?s < 730" using total_count_le[OF wf] by simp
  have ns: "\<not> is_solved ?s" by (simp add: is_solved_def count_def single_flags)
  have lc: "least_count ?s = 0"
    by (simp add: least_count_def least_count_step_def count_def single_flags upt_rec)
  have on: "is_on (?s ! 0) 1" "is_on (?s ! 0) 2" by (simp_all add: is_on_def)
  have r1: "rejected 730 ?T 0 1 ?s"
    by (simp add: rejected_def run_propagation neighbors_0 init_tables init_groups_static)
  have l2: "leads_to 730 ?T 0 2 ?s ?g"
    by (simp add: leads_to_def run_propagation neighbors_0 init_tables init_groups_static
        solve_solved_numeral is_solved_def)
  have "\<forall>j. 1 \<le> j \<and> j < 2 \<and> is_on (?s ! 0) j \<longrightarrow> rejected 730 ?T 0 j ?s"
  proof (intro allI impI)
    fix j :: int assume "1 \<le> j \<and> j < 2 \<and> is_on (?s ! 0) j"
    then have "j = 1" by simp
    then show "rejected 730 ?T 0 j ?s" using r1 by simp
  qed
  then have "\<exists>i. 1 \<le> i \<and> i \<le> 9 \<and> is_on (?s ! nat (least_count ?s)) i \<and>
        leads_to 730 ?T (nat (least_count ?s)) i ?s ?g \<and>
        (\<forall>j. 1 \<le> j \<and> j < i \<and> is_on (?s ! nat (least_count ?s)) j \<longrightarrow>
           rejected 730 ?T (nat (least_count ?s)) j ?s)"
    unfolding lc using on(2) l2 by (intro exI[of _ 2]) simp
  then have "solve (Suc 730) ?T (Some ?s) = Some (Inr (Some ?g))"
    using solve_spec[OF wf_init wf ne fuel] ns by blast
  moreover have "Suc 730 = 731" by simp
  ultimately have "solve 731 ?T (Some ?s) = Some (Inr (Some ?g))" by simp
  with ns lc r1 l2 show ?thesis by blast
qed

subsection \<open>Construction with the tables as the program has them\<close>

lemma digit_of_given: "given_char c \<Longrightarrow> 1 \<le> digit_of c \<and> digit_of c \<le> 9"
  by (auto simp: given_char_def digit_of_def)

lemma scan_static:
  "wf_sudoku s \<Longrightarrow> \<forall>c < 81. 0 < count (s ! c) \<Longrightarrow> \<forall>c < 81. k \<le> c \<longrightarrow> s ! c = Possible \<Longrightarrow>
   scan (assign (Suc n) static_topology) str k s = Some (Inr (log, s')) \<Longrightarrow>
   log = [] \<and> wf_sudoku s' \<and> (\<forall>c < 81. 0 < count (s' ! c))"
proof (induction str arbitrary: k s)
  case Nil
  then show ?case by simp
next
  case (Cons c cs)
  have len: "length s = 81" using Cons.prems(1) by (simp add: wf_sudoku_def)
  show ?case
  proof (cases "given_char c")
    case True
    have d: "1 \<le> digit_of c" "digit_of c \<le> 9" using digit_of_given[OF True] by simp_all
    have k: "k < 81"
      using Cons.prems(4) len unfolding scan_given[OF True] by (auto split: if_splits)
    have "s ! k = Possible" using Cons.prems(3) k by simp
    then have on: "is_on (s ! k) (digit_of c)" using d by (simp add: is_on_Possible)
    let ?t = "s[k := single (digit_of c)]"
    have a: "assign (Suc n) static_topology k (digit_of c) s = Some (True, ?t)"
      using k Cons.prems(1) d on by (rule assign_static)
    have wft: "wf_sudoku ?t" using Cons.prems(1) by (rule wf_update) (rule length_single)
    have pos: "\<forall>c' < 81. 0 < count (?t ! c')"
    proof (intro allI impI)
      fix c' :: nat assume "c' < 81"
      then show "0 < count (?t ! c')"
        using Cons.prems(2) len d by (cases "c' = k") (simp_all add: count_single)
    qed
    have fresh: "\<forall>c' < 81. k + 1 \<le> c' \<longrightarrow> ?t ! c' = Possible"
      using Cons.prems(3) by simp
    have "scan (assign (Suc n) static_topology) cs (k + 1) ?t = Some (Inr (log, s'))"
      using Cons.prems(4) k len a unfolding scan_given[OF True] by simp
    with wft pos fresh show ?thesis by (rule Cons.IH)
  next
    case False
    show ?thesis
    proof (cases "blank_char c")
      case True
      have "scan (assign (Suc n) static_topology) cs (k + 1) s = Some (Inr (log, s'))"
        using Cons.prems(4) unfolding scan_blank[OF True] by simp
      moreover have "\<forall>c' < 81. k + 1 \<le> c' \<longrightarrow> s ! c' = Possible" using Cons.prems(3) by simp
      ultimately show ?thesis using Cons.prems(1,2) Cons.IH by blast
    next
      case nb: False
      have "scan (assign (Suc n) static_topology) cs k s = Some (Inr (log, s'))"
        using Cons.prems(4) unfolding scan_other[OF False nb] by simp
      then show ?thesis using Cons.prems(1,2,3) Cons.IH by blast
    qed
  qed
qed

text \<open>
  As the program runs, no construction writes \<open>error\<close> and no cell of a constructed
  board is empty: every board that \<open>main\<close> passes to \<open>solve\<close> has a candidate in every
  cell.
\<close>

lemma construction_static:
  assumes "Sudoku (Suc n) static_topology str = Some (Inr (log, s))"
  shows "log = [] \<and> wf_sudoku s \<and> (\<forall>c < 81. 0 < count (s ! c))"
  using wf_fresh _ _ assms[unfolded Sudoku_def]
  by (rule scan_static) (simp_all add: count_Possible)

lemma B8_cells:
  "p < 8 \<Longrightarrow> (replicate 8 (single 1) @ replicate 73 Possible) ! p = single 1"
  "(replicate 8 (single 1) @ replicate 73 Possible) ! 8 = Possible"
  by (simp_all add: nth_append)

text \<open>
  Claim C2 on the line of nine \<open>1\<close>, with the tables as the program has them. After
  eight givens the cells 0 to 7 hold the digit 1 alone. The ninth given calls
  \<open>assign(8, 1)\<close>, whose first call is \<open>eliminate(8, 2)\<close>: it removes the digit 2
  from cell 8, which keeps eight candidates, and no cell of the first row admits the
  digit 2 any more. The two loops of \<open>eliminate\<close> visit nothing, the call returns
  \<open>true\<close>, and the constructor finishes without a message.
\<close>

theorem exhausted_group_undetected:
  "Sudoku 1 static_topology (replicate 8 CHR ''1'')
     = Some (Inr ([], replicate 8 (single 1) @ replicate 73 Possible)) \<and>
   eliminate (Suc n) static_topology 8 2 (replicate 8 (single 1) @ replicate 73 Possible)
     = Some (True, (replicate 8 (single 1) @ replicate 73 Possible)[8 := eliminate_bit Possible 2]) \<and>
   count ((replicate 8 (single 1) @ replicate 73 Possible)[8 := eliminate_bit Possible 2] ! 8) = 8 \<and>
   group (init static_topology) ! 0 = [0, 1, 2, 3, 4, 5, 6, 7, 8] \<and>
   places (init static_topology) 0 2
     ((replicate 8 (single 1) @ replicate 73 Possible)[8 := eliminate_bit Possible 2]) = [] \<and>
   list_all (\<lambda>p. \<not> is_on
       ((replicate 8 (single 1) @ replicate 73 Possible)[8 := eliminate_bit Possible 2] ! p) 2)
     [0, 1, 2, 3, 4, 5, 6, 7, 8] \<and>
   Sudoku 1 static_topology (replicate 9 CHR ''1'')
     = Some (Inr ([], replicate 9 (single 1) @ replicate 72 Possible))"
proof -
  let ?b = "replicate 8 (single 1) @ replicate 73 Possible"
  have c8: "Sudoku 1 static_topology (replicate 8 CHR ''1'') = Some (Inr ([], ?b))"
    using scan_ones_static[of 0 8] by (simp add: Sudoku_def)
  have c9: "Sudoku 1 static_topology (replicate 9 CHR ''1'')
      = Some (Inr ([], replicate 9 (single 1) @ replicate 72 Possible))"
    using scan_ones_static[of 0 9] by (simp add: Sudoku_def)
  have cnt: "count (?b[8 := eliminate_bit Possible 2] ! 8) = 8"
    by (simp add: eliminate_bit_def Possible_flags count_def)
  have e: "eliminate (Suc n) static_topology 8 2 ?b = Some (True, ?b[8 := eliminate_bit Possible 2])"
    using eliminate_static[of 8 n 2 ?b] cnt by (simp add: B8_cells is_on_Possible)
  have p: "places (init static_topology) 0 2 (?b[8 := eliminate_bit Possible 2]) = []"
    by (simp add: places_def first_row upt_rec nth_append is_on_def single_flags
        eliminate_bit_def Possible_flags)
  have off: "list_all (\<lambda>p. \<not> is_on (?b[8 := eliminate_bit Possible 2] ! p) 2)
      [0, 1, 2, 3, 4, 5, 6, 7, 8]"
    by (simp add: nth_append is_on_def single_flags eliminate_bit_def Possible_flags)
  from c8 e cnt p off c9 show ?thesis by (simp only: first_row simp_thms)
qed

text \<open>
  The same call on the same board, with the tables that \<open>init\<close> builds: the check of
  the row of cell 8 finds no place left for the digit 2 and the call returns
  \<open>false\<close>.
\<close>

lemma exhausted_group_detected_after_init:
  "eliminate (Suc n) (init static_topology) 8 2 (replicate 8 (single 1) @ replicate 73 Possible)
     = Some (False, (replicate 8 (single 1) @ replicate 73 Possible)[8 := eliminate_bit Possible 2])"
  by (simp add: eliminate_several is_on_def eliminate_bit_def count_def check_group_def places_def
      upt_rec nth_append single_flags Possible_flags init_tables init_groups_static)

end
